theory Spec2Isabelle
  imports Complex_Main "HOL-Library.Multiset" "HOL-Library.Log_Nat"
begin

text \<open>
  The property service of \<open>server.js\<close> in memory mode: the four handlers as they run
  when \<open>MONGODB_URI\<close> is empty and \<open>useMongo\<close> is false, over the list \<open>memory\<close>.
  The branches that call mongoose are not part of the model.
\<close>

section \<open>JavaScript values used by server.js\<close>

text \<open>
  A JavaScript number is a binary64 value. It is modelled by the rational it denotes, plus
  the three special values; the sign of zero is not kept (the program only compares and
  does arithmetic on numbers and tests them for truthiness, where \<open>-0\<close> behaves as
  \<open>0\<close>). A number that comes with a JSON body has been parsed already and is a
  binary64 value. Every number the program computes or reads from a string is rounded to
  binary64 by \<open>round64\<close>.
\<close>

datatype jsnum = NaN | NegInf | Fin rat | PosInf

text \<open>
  The values a record field, a JSON body member or a destructured variable can hold:
  \<open>undefined\<close> and the JSON primitives. JSON arrays and objects as member values are
  outside the model.
\<close>

datatype jsval = JUndefined | JNull | JBool bool | JNum jsnum | JStr string

text \<open>Exceptions thrown inside a handler, and what a handler sends.\<close>

datatype exn = SyntaxError | TypeError

datatype 'a reply = Ok nat 'a | Fail nat

subsection \<open>Rounding to binary64\<close>

text \<open>
  Round to nearest, ties to even: the significand has 53 bits, the exponent of the leading
  bit lies between \<open>-1022\<close> and \<open>1023\<close>, smaller values are spaced \<open>2^-1074\<close> apart,
  and a result of \<open>2^1024\<close> or more is an infinity.
\<close>

definition pow2 :: "int \<Rightarrow> rat" where
  "pow2 e = (if 0 \<le> e then 2 ^ nat e else 1 / 2 ^ nat (- e))"

text \<open>For \<open>a > 0\<close>, the \<open>e\<close> with \<open>2^e \<le> a < 2^(e+1)\<close>.\<close>

definition floor_log2 :: "rat \<Rightarrow> int" where
  "floor_log2 a = (if 1 \<le> a then bitlen \<lfloor>a\<rfloor> - 1 else - bitlen (\<lceil>1 / a\<rceil> - 1))"

definition round_half_even :: "rat \<Rightarrow> int" where
  "round_half_even q =
     (let f = \<lfloor>q\<rfloor>; d = q - of_int f
      in if d < 1 / 2 then f else if 1 / 2 < d then f + 1 else if even f then f else f + 1)"

definition round64 :: "rat \<Rightarrow> jsnum" where
  "round64 r =
     (if r = 0 then Fin 0
      else
        (let a = \<bar>r\<bar>;
             e = max (floor_log2 a) (- 1022);
             ulp = pow2 (e - 52);
             v = of_int (round_half_even (a / ulp)) * ulp
         in if pow2 1024 \<le> v then (if r < 0 then NegInf else PosInf)
            else Fin (if r < 0 then - v else v)))"

text \<open>A number is a binary64 value when rounding leaves it as it is.\<close>

definition binary64 :: "jsnum \<Rightarrow> bool" where
  "binary64 n = (case n of Fin r \<Rightarrow> round64 r = Fin r | _ \<Rightarrow> True)"

subsection \<open>Arithmetic and comparison on numbers\<close>

fun js_neg :: "jsnum \<Rightarrow> jsnum" where
  "js_neg NaN = NaN"
| "js_neg NegInf = PosInf"
| "js_neg (Fin r) = Fin (- r)"
| "js_neg PosInf = NegInf"

fun js_sub :: "jsnum \<Rightarrow> jsnum \<Rightarrow> jsnum" where
  "js_sub NaN _ = NaN"
| "js_sub _ NaN = NaN"
| "js_sub (Fin a) (Fin b) = round64 (a - b)"
| "js_sub (Fin a) PosInf = NegInf"
| "js_sub (Fin a) NegInf = PosInf"
| "js_sub PosInf PosInf = NaN"
| "js_sub PosInf _ = PosInf"
| "js_sub NegInf NegInf = NaN"
| "js_sub NegInf _ = NegInf"

fun js_add :: "jsnum \<Rightarrow> jsnum \<Rightarrow> jsnum" where
  "js_add NaN _ = NaN"
| "js_add _ NaN = NaN"
| "js_add (Fin a) (Fin b) = round64 (a + b)"
| "js_add (Fin a) PosInf = PosInf"
| "js_add (Fin a) NegInf = NegInf"
| "js_add PosInf NegInf = NaN"
| "js_add PosInf _ = PosInf"
| "js_add NegInf PosInf = NaN"
| "js_add NegInf _ = NegInf"

fun js_mul :: "jsnum \<Rightarrow> jsnum \<Rightarrow> jsnum" where
  "js_mul NaN _ = NaN"
| "js_mul _ NaN = NaN"
| "js_mul (Fin a) (Fin b) = round64 (a * b)"
| "js_mul (Fin a) PosInf = (if a = 0 then NaN else if 0 < a then PosInf else NegInf)"
| "js_mul (Fin a) NegInf = (if a = 0 then NaN else if 0 < a then NegInf else PosInf)"
| "js_mul PosInf (Fin b) = (if b = 0 then NaN else if 0 < b then PosInf else NegInf)"
| "js_mul NegInf (Fin b) = (if b = 0 then NaN else if 0 < b then NegInf else PosInf)"
| "js_mul PosInf PosInf = PosInf"
| "js_mul PosInf NegInf = NegInf"
| "js_mul NegInf PosInf = NegInf"
| "js_mul NegInf NegInf = PosInf"

text \<open>\<open>x < y\<close> on numbers: false as soon as one side is \<open>NaN\<close>.\<close>

fun js_lt :: "jsnum \<Rightarrow> jsnum \<Rightarrow> bool" where
  "js_lt NaN _ = False"
| "js_lt _ NaN = False"
| "js_lt (Fin a) (Fin b) = (a < b)"
| "js_lt NegInf NegInf = False"
| "js_lt NegInf _ = True"
| "js_lt _ NegInf = False"
| "js_lt PosInf _ = False"
| "js_lt _ PosInf = True"

text \<open>\<open>x >= y\<close> and \<open>x <= y\<close>: the negated \<open>&lt;\<close>, false when one side is \<open>NaN\<close>.\<close>

definition js_ge :: "jsnum \<Rightarrow> jsnum \<Rightarrow> bool" where
  "js_ge x y = (x \<noteq> NaN \<and> y \<noteq> NaN \<and> \<not> js_lt x y)"

definition js_le :: "jsnum \<Rightarrow> jsnum \<Rightarrow> bool" where
  "js_le x y = (x \<noteq> NaN \<and> y \<noteq> NaN \<and> \<not> js_lt y x)"

text \<open>\<open>Math.max\<close> and \<open>Math.min\<close> of two numbers.\<close>

definition js_max :: "jsnum \<Rightarrow> jsnum \<Rightarrow> jsnum" where
  "js_max x y = (if x = NaN \<or> y = NaN then NaN else if js_lt x y then y else x)"

definition js_min :: "jsnum \<Rightarrow> jsnum \<Rightarrow> jsnum" where
  "js_min x y = (if x = NaN \<or> y = NaN then NaN else if js_lt y x then y else x)"

subsection \<open>Strings\<close>

text \<open>
  A string is a list of code units below 256. White space is what \<open>parseInt\<close> and
  \<open>Number\<close> strip: TAB, LF, VT, FF, CR, SP and NBSP in that range.
\<close>

definition is_ws :: "char \<Rightarrow> bool" where
  "is_ws c = (c \<in> set [CHR 0x09, CHR 0x0A, CHR 0x0B, CHR 0x0C, CHR 0x0D, CHR 0x20, CHR 0xA0])"

definition trimStart :: "string \<Rightarrow> string" where
  "trimStart s = dropWhile is_ws s"

definition trim :: "string \<Rightarrow> string" where
  "trim s = rev (dropWhile is_ws (rev (dropWhile is_ws s)))"

definition char_digit :: "char \<Rightarrow> int option" where
  "char_digit c =
     (let n = (of_char c :: int) in
      if 48 \<le> n \<and> n \<le> 57 then Some (n - 48)
      else if 97 \<le> n \<and> n \<le> 102 then Some (n - 87)
      else if 65 \<le> n \<and> n \<le> 70 then Some (n - 55)
      else None)"

definition is_digit_in :: "int \<Rightarrow> char \<Rightarrow> bool" where
  "is_digit_in r c = (case char_digit c of None \<Rightarrow> False | Some v \<Rightarrow> v < r)"

definition digits_val :: "int \<Rightarrow> string \<Rightarrow> int" where
  "digits_val r ds =
     foldl (\<lambda>a c. r * a + (case char_digit c of None \<Rightarrow> 0 | Some v \<Rightarrow> v)) 0 ds"

text \<open>
  \<open>parseInt(s, 10)\<close>: leading white space, an optional sign, then the longest prefix of
  decimal digits. \<open>mathInt\<close> is the integer they denote, \<open>None\<close> when there is no
  digit; \<open>parseInt\<close> returns it as a number, that is, rounded to binary64, and \<open>NaN\<close>
  when there is none.
\<close>

definition mathInt :: "string \<Rightarrow> int option" where
  "mathInt inp =
     (let s = trimStart inp;
          neg = (case s of [] \<Rightarrow> False | c # _ \<Rightarrow> c = CHR ''-'');
          s1 = (case s of [] \<Rightarrow> [] | c # cs \<Rightarrow> if c = CHR ''-'' \<or> c = CHR ''+'' then cs else s);
          z = takeWhile (is_digit_in 10) s1
      in if z = [] then None
         else Some ((if neg then - 1 else 1) * digits_val 10 z))"

definition parseInt10 :: "string \<Rightarrow> jsnum" where
  "parseInt10 inp = (case mathInt inp of None \<Rightarrow> NaN | Some n \<Rightarrow> round64 (of_int n))"

text \<open>
  \<open>Number(s)\<close> on a string: the \<open>StringNumericLiteral\<close> grammar, whose value is
  rounded to binary64.
\<close>

definition exponent_part :: "string \<Rightarrow> int option" where
  "exponent_part s =
     (case s of
        [] \<Rightarrow> Some 0
      | c # cs \<Rightarrow>
          if c = CHR ''e'' \<or> c = CHR ''E'' then
            (let neg = (case cs of [] \<Rightarrow> False | d # _ \<Rightarrow> d = CHR ''-'');
                 ds = (case cs of [] \<Rightarrow> []
                       | d # ds' \<Rightarrow> if d = CHR ''-'' \<or> d = CHR ''+'' then ds' else cs)
             in if ds \<noteq> [] \<and> list_all (is_digit_in 10) ds
                then Some ((if neg then - 1 else 1) * digits_val 10 ds)
                else None)
          else None)"

definition scale10 :: "rat \<Rightarrow> int \<Rightarrow> rat" where
  "scale10 m e = (if 0 \<le> e then m * 10 ^ nat e else m / 10 ^ nat (- e))"

definition unsigned_decimal :: "string \<Rightarrow> rat option" where
  "unsigned_decimal u =
     (let ip = takeWhile (is_digit_in 10) u;
          r1 = dropWhile (is_digit_in 10) u;
          dot = (case r1 of [] \<Rightarrow> False | c # _ \<Rightarrow> c = CHR ''.'');
          fp = (if dot then takeWhile (is_digit_in 10) (tl r1) else []);
          r2 = (if dot then dropWhile (is_digit_in 10) (tl r1) else r1)
      in if ip = [] \<and> fp = [] then None
         else (case exponent_part r2 of
                 None \<Rightarrow> None
               | Some e \<Rightarrow>
                   Some (scale10 (of_int (digits_val 10 (ip @ fp))) (e - int (length fp)))))"

definition radix_literal :: "int \<Rightarrow> string \<Rightarrow> jsnum" where
  "radix_literal r ds =
     (if ds \<noteq> [] \<and> list_all (is_digit_in r) ds then round64 (of_int (digits_val r ds)) else NaN)"

definition string_to_number :: "string \<Rightarrow> jsnum" where
  "string_to_number inp =
     (let s = trim inp in
      if s = [] then Fin 0
      else if take 2 s = ''0x'' \<or> take 2 s = ''0X'' then radix_literal 16 (drop 2 s)
      else if take 2 s = ''0o'' \<or> take 2 s = ''0O'' then radix_literal 8 (drop 2 s)
      else if take 2 s = ''0b'' \<or> take 2 s = ''0B'' then radix_literal 2 (drop 2 s)
      else
        (let neg = (hd s = CHR ''-'');
             u = (if hd s = CHR ''-'' \<or> hd s = CHR ''+'' then tl s else s)
         in if u = ''Infinity'' then (if neg then NegInf else PosInf)
            else (case unsigned_decimal u of
                    None \<Rightarrow> NaN
                  | Some r \<Rightarrow> round64 (if neg then - r else r))))"

text \<open>\<open>ToNumber\<close> on a value.\<close>

fun to_number :: "jsval \<Rightarrow> jsnum" where
  "to_number JUndefined = NaN"
| "to_number JNull = Fin 0"
| "to_number (JBool b) = Fin (if b then 1 else 0)"
| "to_number (JNum n) = n"
| "to_number (JStr s) = string_to_number s"

section \<open>GET /api/properties: page and pageSize\<close>

text \<open>\<open>v || d\<close> for a number \<open>v\<close>: \<open>NaN\<close> and \<open>0\<close> are falsy.\<close>

definition or_default :: "jsnum \<Rightarrow> jsnum \<Rightarrow> jsnum" where
  "or_default v d = (if v = NaN \<or> v = Fin 0 then d else v)"

text \<open>
  Lines 75-80. The argument is the query parameter, \<open>None\<close> when the request does not
  carry it (the destructuring default then applies).
\<close>

definition pageNum :: "string option \<Rightarrow> jsnum" where
  "pageNum page =
     js_max (or_default (parseInt10 (case page of None \<Rightarrow> ''1'' | Some s \<Rightarrow> s)) (Fin 1)) (Fin 1)"

definition sizeNum :: "string option \<Rightarrow> jsnum" where
  "sizeNum pageSize =
     js_min (js_max (or_default (parseInt10 (case pageSize of None \<Rightarrow> ''20'' | Some s \<Rightarrow> s))
                                (Fin 20)) (Fin 1)) (Fin 100)"

section \<open>What the program takes from its host\<close>

text \<open>
  Three built-ins are not computed here and stay parameters of the handlers:
  \<open>regExp p\<close> is \<open>new RegExp(p, 'i')\<close>, \<open>None\<close> when the pattern is rejected with a
  \<open>SyntaxError\<close>, otherwise the function \<open>test\<close> of the expression on a string;
  \<open>localeCompare\<close> is the collation of \<open>String.prototype.localeCompare\<close>;
  \<open>numberToString\<close> is \<open>String(x)\<close> on a finite number that is not an integer of
  magnitude at most \<open>2^53\<close>. Such an integer is printed digit for digit.
\<close>

record host =
  regExp :: "string \<Rightarrow> (string \<Rightarrow> bool) option"
  localeCompare :: "string \<Rightarrow> string \<Rightarrow> int"
  numberToString :: "rat \<Rightarrow> string"

subsection \<open>Converting to a string\<close>

definition digit_char :: "int \<Rightarrow> char" where
  "digit_char d = ''0123456789'' ! nat d"

function digits_of :: "int \<Rightarrow> string" where
  "digits_of i = (if i < 10 then [digit_char i] else digits_of (i div 10) @ [digit_char (i mod 10)])"
  by pat_completeness auto
termination
  by (relation "measure nat") auto

declare digits_of.simps [simp del]

definition int_to_string :: "int \<Rightarrow> string" where
  "int_to_string i = (if i < 0 then CHR ''-'' # digits_of (- i) else digits_of i)"

definition number_to_string :: "host \<Rightarrow> jsnum \<Rightarrow> string" where
  "number_to_string h n =
     (case n of
        NaN \<Rightarrow> ''NaN''
      | NegInf \<Rightarrow> ''-Infinity''
      | PosInf \<Rightarrow> ''Infinity''
      | Fin r \<Rightarrow>
          if r = of_int \<lfloor>r\<rfloor> \<and> \<bar>r\<bar> \<le> 2 ^ 53 then int_to_string \<lfloor>r\<rfloor>
          else numberToString h r)"

fun to_string :: "host \<Rightarrow> jsval \<Rightarrow> string" where
  "to_string h JUndefined = ''undefined''"
| "to_string h JNull = ''null''"
| "to_string h (JBool b) = (if b then ''true'' else ''false'')"
| "to_string h (JNum n) = number_to_string h n"
| "to_string h (JStr s) = s"

subsection \<open>Date.prototype.toISOString\<close>

text \<open>
  The argument is a time value, in milliseconds since the epoch. The date is the
  proleptic Gregorian one, counted from March so that the leap day ends the year.
\<close>

definition pad :: "nat \<Rightarrow> int \<Rightarrow> string" where
  "pad w i = (let s = digits_of i in replicate (w - length s) CHR ''0'' @ s)"

definition civil_from_days :: "int \<Rightarrow> int \<times> int \<times> int" where
  "civil_from_days days =
     (let z = days + 719468;
          era = z div 146097;
          doe = z - era * 146097;
          yoe = (doe - doe div 1460 + doe div 36524 - doe div 146096) div 365;
          y = yoe + era * 400;
          doy = doe - (365 * yoe + yoe div 4 - yoe div 100);
          mp = (5 * doy + 2) div 153;
          d = doy - (153 * mp + 2) div 5 + 1;
          m = (if mp < 10 then mp + 3 else mp - 9)
      in (if m \<le> 2 then y + 1 else y, m, d))"

definition toISOString :: "int \<Rightarrow> string" where
  "toISOString t =
     (let ms = t mod 86400000;
          (y, m, d) = civil_from_days (t div 86400000);
          year = (if 0 \<le> y \<and> y \<le> 9999 then pad 4 y
                  else (if y < 0 then CHR ''-'' else CHR ''+'') # pad 6 \<bar>y\<bar>)
      in year @ ''-'' @ pad 2 m @ ''-'' @ pad 2 d @ ''T'' @ pad 2 (ms div 3600000) @ '':''
         @ pad 2 (ms div 60000 mod 60) @ '':'' @ pad 2 (ms div 1000 mod 60) @ ''.''
         @ pad 3 (ms mod 1000) @ ''Z'')"

section \<open>The volatile store\<close>

text \<open>
  A record of \<open>memory\<close>. \<open>p_id\<close> is the member \<open>_id\<close>. After a PUT the three
  payload members hold whatever the request body held, \<open>undefined\<close> included.
\<close>

record property =
  p_id :: string
  price :: jsval
  location :: jsval
  rentalYield :: jsval
  createdAt :: string

text \<open>
  \<open>req.body\<close> and \<open>req.query\<close> are objects: maps from member names to values. A
  destructured member that is absent is \<open>undefined\<close>. A query parameter given once is
  a string; a repeated or bracketed parameter, which the query parser turns into an array
  or an object, is outside the model.
\<close>

type_synonym body = "string \<Rightarrow> jsval option"

type_synonym params = "string \<Rightarrow> string option"

definition member :: "body \<Rightarrow> string \<Rightarrow> jsval" where
  "member b k = (case b k of None \<Rightarrow> JUndefined | Some v \<Rightarrow> v)"

subsection \<open>POST /api/properties, lines 50-60\<close>

text \<open>
  \<open>now\<close> is what \<open>Date.now()\<close> returns and \<open>now'\<close> the time value of \<open>new Date()\<close>:
  integers of magnitude at most \<open>8.64 * 10^15\<close>, which \<open>String\<close> prints digit for digit.
  The handler returns the new \<open>memory\<close> and what it sends.
\<close>

definition post_properties ::
  "host \<Rightarrow> int \<Rightarrow> int \<Rightarrow> body \<Rightarrow> property list \<Rightarrow> property list \<times> property reply" where
  "post_properties h now now' b memory =
     (let obj = \<lparr>p_id = int_to_string now,
                 price = JNum (to_number (member b ''price'')),
                 location = JStr (to_string h (member b ''location'')),
                 rentalYield = JNum (to_number (member b ''rentalYield'')),
                 createdAt = toISOString now'\<rparr>
      in (obj # memory, Ok 201 obj))"

subsection \<open>PUT and DELETE /api/properties/:id, lines 148-151 and 166-169\<close>

fun findIndex :: "('a \<Rightarrow> bool) \<Rightarrow> 'a list \<Rightarrow> nat option" where
  "findIndex P [] = None"
| "findIndex P (x # xs) =
     (if P x then Some 0 else (case findIndex P xs of None \<Rightarrow> None | Some i \<Rightarrow> Some (Suc i)))"

definition put_property ::
  "string \<Rightarrow> body \<Rightarrow> property list \<Rightarrow> property list \<times> property reply" where
  "put_property ident b memory =
     (case findIndex (\<lambda>x. p_id x = ident) memory of
        None \<Rightarrow> (memory, Fail 404)
      | Some i \<Rightarrow>
          (let r = (memory ! i)\<lparr>price := member b ''price'',
                                 location := member b ''location'',
                                 rentalYield := member b ''rentalYield''\<rparr>
           in (memory[i := r], Ok 200 r)))"

definition delete_property :: "string \<Rightarrow> property list \<Rightarrow> property list \<times> unit reply" where
  "delete_property ident memory =
     (case findIndex (\<lambda>x. p_id x = ident) memory of
        None \<Rightarrow> (memory, Fail 404)
      | Some i \<Rightarrow> (take i memory @ drop (Suc i) memory, Ok 200 ()))"

subsection \<open>GET /api/properties: the filter object, lines 82-93\<close>

text \<open>A query parameter is truthy when it is present and not the empty string.\<close>

definition truthy :: "string option \<Rightarrow> bool" where
  "truthy p = (case p of None \<Rightarrow> False | Some s \<Rightarrow> s \<noteq> [])"

record bounds =
  gte :: "jsnum option"
  lte :: "jsnum option"

record filter_spec =
  on_location :: "string option"
  on_price :: "bounds option"
  on_rentalYield :: "bounds option"

definition bound_of :: "string option \<Rightarrow> jsnum option" where
  "bound_of p = (case p of None \<Rightarrow> None | Some s \<Rightarrow> if s = [] then None else Some (string_to_number s))"

definition make_bounds :: "string option \<Rightarrow> string option \<Rightarrow> bounds option" where
  "make_bounds lo hi =
     (if truthy lo \<or> truthy hi then Some \<lparr>gte = bound_of lo, lte = bound_of hi\<rparr> else None)"

definition build_filter :: "params \<Rightarrow> filter_spec" where
  "build_filter qry =
     \<lparr>on_location = (if truthy (qry ''q'') then qry ''q'' else None),
      on_price = make_bounds (qry ''minPrice'') (qry ''maxPrice''),
      on_rentalYield = make_bounds (qry ''minYield'') (qry ''maxYield'')\<rparr>"

subsection \<open>GET /api/properties: filtering the copy of memory, lines 104-116\<close>

definition apply_location :: "host \<Rightarrow> string option \<Rightarrow> property list \<Rightarrow> exn + property list" where
  "apply_location h pat list =
     (case pat of
        None \<Rightarrow> Inr list
      | Some p \<Rightarrow>
          (case regExp h p of
             None \<Rightarrow> Inl SyntaxError
           | Some test \<Rightarrow> Inr (filter (\<lambda>x. test (to_string h (location x))) list)))"

text \<open>
  \<open>x.price >= b\<close> with \<open>b\<close> a number converts the left side with \<open>ToNumber\<close>.
\<close>

definition apply_range :: "(property \<Rightarrow> jsval) \<Rightarrow> bounds option \<Rightarrow> property list \<Rightarrow> property list" where
  "apply_range fld bs list =
     (case bs of
        None \<Rightarrow> list
      | Some b \<Rightarrow>
          (let l1 = (case gte b of None \<Rightarrow> list
                     | Some g \<Rightarrow> filter (\<lambda>x. js_ge (to_number (fld x)) g) list)
           in (case lte b of None \<Rightarrow> l1
               | Some l \<Rightarrow> filter (\<lambda>x. js_le (to_number (fld x)) l) l1)))"

definition filtered :: "host \<Rightarrow> params \<Rightarrow> property list \<Rightarrow> exn + property list" where
  "filtered h qry memory =
     (let f = build_filter qry in
      case apply_location h (on_location f) memory of
        Inl e \<Rightarrow> Inl e
      | Inr list \<Rightarrow> Inr (apply_range rentalYield (on_rentalYield f) (apply_range price (on_price f) list)))"

text \<open>
  What the three filters keep, stated record by record: a record is selected when the
  pattern accepts its location and each bound that is set holds of it. This is the
  reading of the filter that the theorems compare \<open>filtered\<close> with.
\<close>

definition in_range :: "string option \<Rightarrow> string option \<Rightarrow> jsval \<Rightarrow> bool" where
  "in_range lo hi v =
     ((case bound_of lo of None \<Rightarrow> True | Some g \<Rightarrow> js_ge (to_number v) g)
      \<and> (case bound_of hi of None \<Rightarrow> True | Some l \<Rightarrow> js_le (to_number v) l))"

definition selects :: "host \<Rightarrow> params \<Rightarrow> property \<Rightarrow> bool" where
  "selects h qry x =
     ((case on_location (build_filter qry) of
         None \<Rightarrow> True
       | Some p \<Rightarrow> (case regExp h p of None \<Rightarrow> False | Some test \<Rightarrow> test (to_string h (location x))))
      \<and> in_range (qry ''minPrice'') (qry ''maxPrice'') (price x)
      \<and> in_range (qry ''minYield'') (qry ''maxYield'') (rentalYield x))"

subsection \<open>GET /api/properties: sorting, lines 117-124\<close>

text \<open>
  \<open>a[sortBy]\<close>: an own member of the record, or a member inherited from
  \<open>Object.prototype\<close> (a function or the prototype, neither nullish), or \<open>undefined\<close>.
\<close>

definition own_prop :: "property \<Rightarrow> string \<Rightarrow> jsval option" where
  "own_prop x k =
     (if k = ''_id'' then Some (JStr (p_id x))
      else if k = ''price'' then Some (price x)
      else if k = ''location'' then Some (location x)
      else if k = ''rentalYield'' then Some (rentalYield x)
      else if k = ''createdAt'' then Some (JStr (createdAt x))
      else None)"

definition inherited :: "string list" where
  "inherited =
     [''constructor'', ''__defineGetter__'', ''__defineSetter__'', ''hasOwnProperty'',
      ''__lookupGetter__'', ''__lookupSetter__'', ''isPrototypeOf'', ''propertyIsEnumerable'',
      ''toString'', ''valueOf'', ''__proto__'', ''toLocaleString'']"

text \<open>
  \<open>ToNumber(a[sortBy] ?? 0)\<close>, the operand of the subtraction on line 122. An inherited
  function or object converts to \<open>NaN\<close>.
\<close>

definition sort_operand :: "string \<Rightarrow> property \<Rightarrow> jsnum" where
  "sort_operand k x =
     (case own_prop x k of
        Some v \<Rightarrow> if v = JUndefined \<or> v = JNull then Fin 0 else to_number v
      | None \<Rightarrow> if k \<in> set inherited then NaN else Fin 0)"

text \<open>
  The comparator. \<open>a.location.localeCompare\<close> throws a \<open>TypeError\<close> unless
  \<open>a.location\<close> is a string; its argument is converted to a string.
\<close>

definition compare_fn :: "host \<Rightarrow> string \<Rightarrow> string \<Rightarrow> property \<Rightarrow> property \<Rightarrow> exn + jsnum" where
  "compare_fn h sortBy order a b =
     (if sortBy = ''location'' then
        (case location a of
           JStr s \<Rightarrow>
             (let c = Fin (of_int (localeCompare h s (to_string h (location b))))
              in Inr (if order = ''asc'' then c else js_neg c))
         | _ \<Rightarrow> Inl TypeError)
      else
        (let s = js_sub (sort_operand sortBy a) (sort_operand sortBy b)
         in Inr (if order = ''asc'' then s else js_neg s)))"

text \<open>
  A collation is a consistent comparator on a set of strings when swapping the arguments
  swaps the sign and "not after" is transitive. ECMA-402 asks this of \<open>localeCompare\<close>.
\<close>

definition consistent_on :: "(string \<Rightarrow> string \<Rightarrow> int) \<Rightarrow> string set \<Rightarrow> bool" where
  "consistent_on lc L =
     ((\<forall>a\<in>L. \<forall>b\<in>L. (lc b a \<le> 0) = (0 \<le> lc a b))
      \<and> (\<forall>a\<in>L. \<forall>b\<in>L. \<forall>c\<in>L. lc a b \<le> 0 \<and> lc b c \<le> 0 \<longrightarrow> lc a c \<le> 0))"

text \<open>
  \<open>Array.prototype.sort\<close> is stable and reads a comparator result \<open>v\<close> by its sign,
  \<open>NaN\<close> counting as \<open>0\<close>. When the comparator is a consistent ordering that does not
  throw, every engine returns the same list: the one of the stable insertion sort below,
  which puts \<open>x\<close> behind \<open>y\<close> when \<open>cmp x y\<close> is positive. With any other comparator
  the order, and which pairs are compared, are the engine's choice; \<open>sort_by\<close> is then
  one possible engine, not the program's.
\<close>

fun js_pos :: "jsnum \<Rightarrow> bool" where
  "js_pos (Fin r) = (0 < r)"
| "js_pos PosInf = True"
| "js_pos _ = False"

fun insert_by :: "('a \<Rightarrow> 'a \<Rightarrow> exn + jsnum) \<Rightarrow> 'a \<Rightarrow> 'a list \<Rightarrow> exn + 'a list" where
  "insert_by cmp x [] = Inr [x]"
| "insert_by cmp x (y # ys) =
     (case cmp x y of
        Inl e \<Rightarrow> Inl e
      | Inr v \<Rightarrow>
          if js_pos v then (case insert_by cmp x ys of Inl e \<Rightarrow> Inl e | Inr zs \<Rightarrow> Inr (y # zs))
          else Inr (x # y # ys))"

fun sort_by :: "('a \<Rightarrow> 'a \<Rightarrow> exn + jsnum) \<Rightarrow> 'a list \<Rightarrow> exn + 'a list" where
  "sort_by cmp [] = Inr []"
| "sort_by cmp (x # xs) =
     (case sort_by cmp xs of Inl e \<Rightarrow> Inl e | Inr ys \<Rightarrow> insert_by cmp x ys)"

subsection \<open>GET /api/properties: the handler in memory mode, lines 69-80 and 104-128\<close>

record page_result =
  items :: "property list"
  total :: nat
  page :: jsnum
  pageSize :: jsnum

definition sortBy_of :: "params \<Rightarrow> string" where
  "sortBy_of qry = (case qry ''sortBy'' of None \<Rightarrow> ''createdAt'' | Some s \<Rightarrow> s)"

definition order_of :: "params \<Rightarrow> string" where
  "order_of qry = (case qry ''order'' of None \<Rightarrow> ''desc'' | Some s \<Rightarrow> s)"

text \<open>
  \<open>list.slice(start, end)\<close>. An index is truncated to an integer, counted from the end
  when negative, and clamped to the length of the list.
\<close>

definition trunc :: "rat \<Rightarrow> int" where
  "trunc r = (if 0 \<le> r then \<lfloor>r\<rfloor> else \<lceil>r\<rceil>)"

definition relative_index :: "jsnum \<Rightarrow> nat \<Rightarrow> nat" where
  "relative_index n len =
     (case n of
        NaN \<Rightarrow> 0
      | NegInf \<Rightarrow> 0
      | PosInf \<Rightarrow> len
      | Fin r \<Rightarrow> (let i = trunc r in if i < 0 then nat (max (int len + i) 0) else min (nat i) len))"

definition slice :: "jsnum \<Rightarrow> jsnum \<Rightarrow> 'a list \<Rightarrow> 'a list" where
  "slice start end list =
     (let k = relative_index start (length list);
          final = relative_index end (length list)
      in take (final - k) (drop k list))"

text \<open>\<open>const start = (pageNum - 1) * sizeNum\<close>, line 126.\<close>

definition start_of :: "jsnum \<Rightarrow> jsnum \<Rightarrow> jsnum" where
  "start_of pg sz = js_mul (js_sub pg (Fin 1)) sz"

text \<open>
  The handler, with the engine's \<open>sort\<close> as its first argument: a function from the
  comparator and the list to the sorted list, or to the exception that ended the sort.
\<close>

definition get_properties_with ::
  "((property \<Rightarrow> property \<Rightarrow> exn + jsnum) \<Rightarrow> property list \<Rightarrow> exn + property list)
   \<Rightarrow> host \<Rightarrow> params \<Rightarrow> property list \<Rightarrow> page_result reply" where
  "get_properties_with array_sort h qry memory =
     (let pg = pageNum (qry ''page'');
          sz = sizeNum (qry ''pageSize'');
          start = start_of pg sz
      in case filtered h qry memory of
           Inl e \<Rightarrow> Fail 500
         | Inr list \<Rightarrow>
             (case array_sort (compare_fn h (sortBy_of qry) (order_of qry)) list of
                Inl e \<Rightarrow> Fail 500
              | Inr list' \<Rightarrow>
                  Ok 200 \<lparr>items = slice start (js_add start sz) list',
                          total = length list', page = pg, pageSize = sz\<rparr>))"

text \<open>The handler on the engine that sorts by stable insertion.\<close>

definition get_properties :: "host \<Rightarrow> params \<Rightarrow> property list \<Rightarrow> page_result reply" where
  "get_properties = get_properties_with sort_by"

text \<open>
  What every engine's \<open>sort\<close> does: when it returns, the list it returns is a
  rearrangement of the list it was given.
\<close>

definition rearranges ::
  "(('a \<Rightarrow> 'a \<Rightarrow> exn + jsnum) \<Rightarrow> 'a list \<Rightarrow> exn + 'a list) \<Rightarrow> bool" where
  "rearranges array_sort = (\<forall>cmp xs ys. array_sort cmp xs = Inr ys \<longrightarrow> mset ys = mset xs)"

subsection \<open>Sequences of writes\<close>

text \<open>
  The three handlers that change \<open>memory\<close>, as requests, and the store after a list of
  them. Node runs one handler at a time, so a history is a list. A GET leaves \<open>memory\<close>
  as it is (it sorts a copy) and can be asked in any of the states.
\<close>

datatype request = Post int int body | Put string body | Delete string

fun step :: "host \<Rightarrow> property list \<Rightarrow> request \<Rightarrow> property list" where
  "step h memory (Post now now' b) = fst (post_properties h now now' b memory)"
| "step h memory (Put ident b) = fst (put_property ident b memory)"
| "step h memory (Delete ident) = fst (delete_property ident memory)"

definition run :: "host \<Rightarrow> property list \<Rightarrow> request list \<Rightarrow> property list" where
  "run h memory reqs = foldl (step h) memory reqs"

text \<open>A request creates the id \<open>ident\<close> when it is a POST that reads the clock value written \<open>ident\<close>.\<close>

fun creates :: "string \<Rightarrow> request \<Rightarrow> bool" where
  "creates ident (Post now now' b) = (int_to_string now = ident)"
| "creates ident _ = False"

section \<open>A host and a store for concrete requests\<close>

text \<open>
  The examples below run the handlers on concrete requests. Their host answers as a
  JavaScript engine does on the inputs they use: a pattern made of letters only, flagged
  \<open>i\<close>, tests containment up to the case of ASCII letters; words of ASCII letters in
  the same case pattern collate in code unit order. No example formats a number that is
  not an integer.
\<close>

definition lower :: "char \<Rightarrow> char" where
  "lower c =
     (case map_of (zip ''ABCDEFGHIJKLMNOPQRSTUVWXYZ'' ''abcdefghijklmnopqrstuvwxyz'') c of
        None \<Rightarrow> c
      | Some d \<Rightarrow> d)"

fun contains :: "string \<Rightarrow> string \<Rightarrow> bool" where
  "contains p [] = (p = [])"
| "contains p (c # cs) = (take (length p) (c # cs) = p \<or> contains p cs)"

fun code_unit_order :: "string \<Rightarrow> string \<Rightarrow> int" where
  "code_unit_order [] [] = 0"
| "code_unit_order [] (b # bs) = - 1"
| "code_unit_order (a # as) [] = 1"
| "code_unit_order (a # as) (b # bs) =
     (if (of_char a :: int) < of_char b then - 1
      else if (of_char b :: int) < of_char a then 1
      else code_unit_order as bs)"

definition example_host :: host where
  "example_host =
     \<lparr>regExp = (\<lambda>p. Some (\<lambda>s. contains (map lower p) (map lower s))),
      localeCompare = code_unit_order,
      numberToString = (\<lambda>r. [])\<rparr>"

definition body_paris :: body where
  "body_paris = [''price'' \<mapsto> JNum (Fin 1000), ''location'' \<mapsto> JStr ''Paris'',
                 ''rentalYield'' \<mapsto> JNum (Fin (9 / 2))]"

definition body_lyon :: body where
  "body_lyon = [''price'' \<mapsto> JNum (Fin 500), ''location'' \<mapsto> JStr ''Lyon'',
                ''rentalYield'' \<mapsto> JNum (Fin 6)]"

definition rec_paris :: property where
  "rec_paris = \<lparr>p_id = ''1700000000000'', price = JNum (Fin 1000), location = JStr ''Paris'',
                 rentalYield = JNum (Fin (9 / 2)), createdAt = ''2023-11-14T22:13:20.000Z''\<rparr>"

definition rec_lyon :: property where
  "rec_lyon = \<lparr>p_id = ''1700000060000'', price = JNum (Fin 500), location = JStr ''Lyon'',
                rentalYield = JNum (Fin 6), createdAt = ''2023-11-14T22:14:20.000Z''\<rparr>"

text \<open>The store after the two POSTs of the lemma \<open>example_memory_posted\<close>.\<close>

definition example_memory :: "property list" where
  "example_memory = [rec_lyon, rec_paris]"

definition body_paris2 :: body where
  "body_paris2 = [''price'' \<mapsto> JNum (Fin 1500), ''location'' \<mapsto> JStr ''Paris'',
                  ''rentalYield'' \<mapsto> JNum (Fin 3)]"

definition rec_paris2 :: property where
  "rec_paris2 = \<lparr>p_id = ''1700000120000'', price = JNum (Fin 1500), location = JStr ''Paris'',
                  rentalYield = JNum (Fin 3), createdAt = ''2023-11-14T22:15:20.000Z''\<rparr>"

text \<open>The store of the scenario of the specification: Paris, Lyon, Paris, newest first.\<close>

definition scenario_memory :: "property list" where
  "scenario_memory = [rec_paris2, rec_lyon, rec_paris]"

text \<open>The requests of the examples.\<close>

definition no_params :: params where
  "no_params = Map.empty"

definition scenario_page2 :: params where
  "scenario_page2 = [''q'' \<mapsto> ''paris'', ''sortBy'' \<mapsto> ''price'', ''order'' \<mapsto> ''asc'',
                     ''pageSize'' \<mapsto> ''1'', ''page'' \<mapsto> ''2'']"

definition minPrice_abc :: params where
  "minPrice_abc = [''minPrice'' \<mapsto> ''abc'']"

definition maxYield_empty :: params where
  "maxYield_empty = [''maxYield'' \<mapsto> [], ''minPrice'' \<mapsto> ''600'']"

definition sort_id_asc :: params where
  "sort_id_asc = [''sortBy'' \<mapsto> ''_id'', ''order'' \<mapsto> ''asc'']"

definition sort_unknown_asc :: params where
  "sort_unknown_asc = [''sortBy'' \<mapsto> ''surface'', ''order'' \<mapsto> ''asc'']"

definition sort_createdAt_asc :: params where
  "sort_createdAt_asc = [''sortBy'' \<mapsto> ''createdAt'', ''order'' \<mapsto> ''asc'']"

definition sort_price_asc :: params where
  "sort_price_asc = [''sortBy'' \<mapsto> ''price'', ''order'' \<mapsto> ''asc'']"

definition sort_location_desc :: params where
  "sort_location_desc = [''sortBy'' \<mapsto> ''location'']"

text \<open>
  A record posted in the same millisecond as \<open>rec_paris\<close>, the store that holds both,
  and the record a POST without payload members creates.
\<close>

definition rec_twin :: property where
  "rec_twin = \<lparr>p_id = ''1700000000000'', price = JNum (Fin 500), location = JStr ''Lyon'',
                rentalYield = JNum (Fin 6), createdAt = ''2023-11-14T22:13:20.000Z''\<rparr>"

definition twin_memory :: "property list" where
  "twin_memory = [rec_twin, rec_paris]"

definition empty_body :: body where
  "empty_body = Map.empty"

definition rec_blank :: property where
  "rec_blank = \<lparr>p_id = ''1700000000000'', price = JNum NaN, location = JStr ''undefined'',
                 rentalYield = JNum NaN, createdAt = ''2023-11-14T22:13:20.000Z''\<rparr>"

section \<open>Properties\<close>

subsection \<open>Rounding to binary64\<close>

text \<open>
  What the handlers need of \<open>round64\<close>: an integer of magnitude at most \<open>2^53\<close> is
  its own rounding, rounding does not go below a power of two that the argument reaches,
  and an argument of \<open>2^1024\<close> or more rounds to \<open>Infinity\<close>.
\<close>

lemma pow2_powi: "pow2 e = 2 powi e"
  by (simp add: pow2_def power_int_def inverse_eq_divide power_one_over)

lemma pow2_pos [simp]: "0 < pow2 e"
  by (simp add: pow2_powi)

lemma pow2_add: "pow2 (a + b) = pow2 a * pow2 b"
  by (simp add: pow2_powi power_int_add)

lemma pow2_nat: "0 \<le> e \<Longrightarrow> pow2 e = 2 ^ nat e"
  by (simp add: pow2_def)

lemma pow2_mono: "a \<le> b \<Longrightarrow> pow2 a \<le> pow2 b"
  by (simp add: pow2_powi power_int_increasing)

lemma pow2_less_imp: "pow2 a < pow2 b \<Longrightarrow> a < b"
  using pow2_mono [of b a] by (cases "a < b") auto

lemma floor_log2_bounds:
  assumes "1 \<le> a"
  shows "0 \<le> floor_log2 a" and "pow2 (floor_log2 a) \<le> a" and "a < pow2 (floor_log2 a + 1)"
proof -
  let ?x = "\<lfloor>a\<rfloor>"
  from assms have x: "0 < ?x" by simp
  from bitlen_bounds [OF x]
  have lo: "2 ^ nat (bitlen ?x - 1) \<le> ?x" and hi: "?x < 2 ^ nat (bitlen ?x)" by simp_all
  from x have b1: "1 \<le> bitlen ?x"
    using bitlen_eq_zero_iff [of ?x] bitlen_nonneg [of ?x] by linarith
  have e: "floor_log2 a = bitlen ?x - 1"
    using assms by (simp add: floor_log2_def)
  show "0 \<le> floor_log2 a" using b1 e by simp
  have "pow2 (floor_log2 a) = of_int (2 ^ nat (bitlen ?x - 1))"
    using b1 by (simp add: e pow2_nat)
  also have "\<dots> \<le> of_int ?x" using lo by (simp only: of_int_le_iff)
  also have "\<dots> \<le> a" by simp
  finally show "pow2 (floor_log2 a) \<le> a" .
  have "a < of_int (?x + 1)" by linarith
  also have "\<dots> \<le> of_int (2 ^ nat (bitlen ?x))"
  proof -
    from hi have "?x + 1 \<le> 2 ^ nat (bitlen ?x)" by simp
    then show ?thesis by (simp only: of_int_le_iff)
  qed
  also have "\<dots> = pow2 (floor_log2 a + 1)"
    using b1 by (simp add: e pow2_nat)
  finally show "a < pow2 (floor_log2 a + 1)" .
qed

lemma rhe_of_int [simp]: "round_half_even (of_int m) = m"
  by (simp add: round_half_even_def)

lemma rhe_ge_floor: "\<lfloor>q\<rfloor> \<le> round_half_even q"
  by (simp add: round_half_even_def Let_def)

lemma round64_minus: "round64 (- r) = js_neg (round64 r)"
  by (simp add: round64_def Let_def)

lemma round64_ge1:
  assumes "1 \<le> r"
  shows "\<exists>m. pow2 (floor_log2 r) \<le> of_int m * pow2 (floor_log2 r - 52)
             \<and> m = round_half_even (r / pow2 (floor_log2 r - 52))
             \<and> round64 r = (if pow2 1024 \<le> of_int m * pow2 (floor_log2 r - 52) then PosInf
                            else Fin (of_int m * pow2 (floor_log2 r - 52)))"
proof -
  let ?e = "floor_log2 r" and ?ulp = "pow2 (floor_log2 r - 52)"
  from floor_log2_bounds [OF assms] have e0: "0 \<le> ?e" and lo: "pow2 ?e \<le> r" by simp_all
  let ?m = "round_half_even (r / ?ulp)"
  have split: "pow2 ?e = of_int (2 ^ 52) * ?ulp"
    using pow2_add [of 52 "?e - 52"] by (simp add: pow2_nat)
  then have "of_int (2 ^ 52) * ?ulp \<le> r" using lo by simp
  then have "of_int (2 ^ 52) \<le> r / ?ulp"
    by (simp add: pos_le_divide_eq)
  then have "2 ^ 52 \<le> \<lfloor>r / ?ulp\<rfloor>"
    by (simp only: le_floor_iff)
  with rhe_ge_floor [of "r / ?ulp"] have "2 ^ 52 \<le> ?m" by linarith
  then have "(of_int (2 ^ 52) :: rat) \<le> of_int ?m"
    by (simp only: of_int_le_iff)
  then have "of_int (2 ^ 52) * ?ulp \<le> of_int ?m * ?ulp"
    by (simp add: mult_right_mono)
  then have v: "pow2 ?e \<le> of_int ?m * ?ulp"
    by (simp only: split)
  have "round64 r = (if pow2 1024 \<le> of_int ?m * ?ulp then PosInf else Fin (of_int ?m * ?ulp))"
    using assms e0 by (simp add: round64_def Let_def max_def)
  with v show ?thesis by blast
qed

lemma round64_lower:
  assumes "2 ^ j \<le> r"
  shows "round64 r = PosInf \<or> (\<exists>v. round64 r = Fin v \<and> 2 ^ j \<le> v)"
proof -
  have r1: "1 \<le> r" using assms one_le_power [of "2::rat" j] by linarith
  from floor_log2_bounds [OF r1] have hi: "r < pow2 (floor_log2 r + 1)" by simp
  have "pow2 (int j) \<le> r" using assms by (simp add: pow2_nat)
  with hi have "pow2 (int j) < pow2 (floor_log2 r + 1)" by linarith
  then have "int j \<le> floor_log2 r" using pow2_less_imp by fastforce
  then have "pow2 (int j) \<le> pow2 (floor_log2 r)" by (rule pow2_mono)
  then have j: "2 ^ j \<le> pow2 (floor_log2 r)" by (simp add: pow2_nat)
  from round64_ge1 [OF r1] obtain m where
    "pow2 (floor_log2 r) \<le> of_int m * pow2 (floor_log2 r - 52)"
    "round64 r = (if pow2 1024 \<le> of_int m * pow2 (floor_log2 r - 52) then PosInf
                            else Fin (of_int m * pow2 (floor_log2 r - 52)))"
    by blast
  with j show ?thesis by (cases "pow2 1024 \<le> of_int m * pow2 (floor_log2 r - 52)") auto
qed

lemma round64_overflow:
  assumes "2 ^ 1024 \<le> r"
  shows "round64 r = PosInf"
proof -
  have "(1::rat) \<le> 2 ^ 1024" by (rule one_le_power) simp
  with assms have r1: "1 \<le> r" by (rule order_trans [rotated])
  from floor_log2_bounds [OF r1] have hi: "r < pow2 (floor_log2 r + 1)" by simp
  have "pow2 1024 \<le> r" using assms by (simp add: pow2_nat)
  with hi have "pow2 1024 < pow2 (floor_log2 r + 1)" by linarith
  then have "1024 \<le> floor_log2 r" using pow2_less_imp by fastforce
  then have big: "pow2 1024 \<le> pow2 (floor_log2 r)" by (rule pow2_mono)
  from round64_ge1 [OF r1] obtain m where
    "pow2 (floor_log2 r) \<le> of_int m * pow2 (floor_log2 r - 52)"
    "round64 r = (if pow2 1024 \<le> of_int m * pow2 (floor_log2 r - 52) then PosInf
                            else Fin (of_int m * pow2 (floor_log2 r - 52)))"
    by blast
  with big show ?thesis by auto
qed

lemma round64_exact_pos:
  assumes "0 < n" and "n \<le> 2 ^ 53"
  shows "round64 (of_int n) = Fin (of_int n)"
proof -
  let ?r = "of_int n :: rat"
  let ?e = "floor_log2 ?r"
  have r1: "1 \<le> ?r" using assms by simp
  from floor_log2_bounds [OF r1] have e0: "0 \<le> ?e" and lo: "pow2 ?e \<le> ?r" by simp_all
  have r53: "?r \<le> pow2 53"
  proof -
    from assms have "?r \<le> of_int (2 ^ 53)" by (simp only: of_int_le_iff)
    then show ?thesis by (simp add: pow2_nat)
  qed
  have e53: "?e \<le> 53"
  proof (rule ccontr)
    assume "\<not> ?e \<le> 53"
    then have "54 \<le> ?e" by simp
    then have "pow2 54 \<le> pow2 ?e" by (rule pow2_mono)
    with lo r53 have "pow2 54 \<le> pow2 53" by linarith
    then show False by (simp add: pow2_nat)
  qed
  have "\<exists>m. ?r / pow2 (?e - 52) = of_int m"
  proof (cases "?e \<le> 52")
    case True
    have "pow2 (?e - 52) * pow2 (52 - ?e) = 1"
      using pow2_add [of "?e - 52" "52 - ?e"] by (simp add: pow2_nat)
    then have "inverse (pow2 (?e - 52)) = pow2 (52 - ?e)"
      by (rule inverse_unique)
    then have "?r / pow2 (?e - 52) = ?r * pow2 (52 - ?e)"
      by (simp add: divide_inverse)
    also have "\<dots> = of_int (n * 2 ^ nat (52 - ?e))"
      using True by (simp add: pow2_nat)
    finally show ?thesis by blast
  next
    case False
    with e53 have e: "?e = 53" by simp
    have u: "pow2 (?e - 52) = 2" by (simp add: e pow2_nat)
    from lo r53 e have "?r = pow2 53" by simp
    then have "?r = 2 ^ 53" by (simp add: pow2_nat)
    then have "?r / 2 = of_int (2 ^ 52)" by simp
    then show ?thesis unfolding u by blast
  qed
  then obtain m where m: "?r / pow2 (?e - 52) = of_int m" by blast
  have nz: "pow2 (?e - 52) \<noteq> 0" by (simp add: pow2_powi)
  from m nz have "?r = of_int m * pow2 (?e - 52)"
    by (simp add: nonzero_divide_eq_eq)
  then have v: "of_int (round_half_even (?r / pow2 (?e - 52))) * pow2 (?e - 52) = ?r"
    by (simp only: m rhe_of_int)
  have small: "\<not> pow2 1024 \<le> ?r"
  proof
    assume "pow2 1024 \<le> ?r"
    with r53 have "pow2 1024 \<le> pow2 53" by linarith
    then show False by (simp add: pow2_nat)
  qed
  from round64_ge1 [OF r1] v small show ?thesis by auto
qed

lemma round64_exact:
  assumes "\<bar>n\<bar> \<le> 2 ^ 53"
  shows "round64 (of_int n) = Fin (of_int n)"
proof (cases "0 < n")
  case True
  with assms show ?thesis by (simp add: round64_exact_pos)
next
  case False
  show ?thesis
  proof (cases "n = 0")
    case True
    then show ?thesis by (simp add: round64_def)
  next
    case False
    with \<open>\<not> 0 < n\<close> assms have "0 < - n" "- n \<le> 2 ^ 53" by simp_all
    then have "round64 (of_int (- n)) = Fin (of_int (- n))" by (rule round64_exact_pos)
    then have "js_neg (round64 (of_int n)) = Fin (- of_int n)"
      by (simp add: round64_minus)
    then show ?thesis by (cases "round64 (of_int n)") auto
  qed
qed

lemma round64_integral:
  assumes "2 ^ 53 \<le> n"
  shows "round64 (of_int n) = PosInf \<or> (\<exists>m. 2 ^ 53 \<le> m \<and> round64 (of_int n) = Fin (of_int m))"
proof -
  let ?r = "of_int n :: rat"
  let ?e = "floor_log2 ?r"
  have "(1::int) \<le> 2 ^ 53" by simp
  with assms have "1 \<le> n" by linarith
  then have r1: "1 \<le> ?r" by simp
  from floor_log2_bounds [OF r1] have hi: "?r < pow2 (?e + 1)" by simp
  have "pow2 53 \<le> ?r"
  proof -
    from assms have "of_int (2 ^ 53) \<le> ?r" by (simp only: of_int_le_iff)
    then show ?thesis by (simp add: pow2_nat)
  qed
  with hi have "pow2 53 < pow2 (?e + 1)" by linarith
  then have e: "53 \<le> ?e" using pow2_less_imp by fastforce
  then have ulp: "pow2 (?e - 52) = of_int (2 ^ nat (?e - 52))"
    by (simp add: pow2_nat)
  from e have e53: "pow2 53 \<le> pow2 ?e" by (rule pow2_mono)
  from round64_ge1 [OF r1] obtain m where
    lo: "pow2 ?e \<le> of_int m * pow2 (?e - 52)" and
    r: "round64 ?r = (if pow2 1024 \<le> of_int m * pow2 (?e - 52) then PosInf
                            else Fin (of_int m * pow2 (?e - 52)))"
    by blast
  let ?k = "m * 2 ^ nat (?e - 52)"
  have k: "of_int m * pow2 (?e - 52) = of_int ?k" by (simp add: ulp)
  from lo e53 have "pow2 53 \<le> of_int ?k" unfolding k by linarith
  then have "of_int (2 ^ 53) \<le> (of_int ?k :: rat)" by (simp add: pow2_nat)
  then have "2 ^ 53 \<le> ?k" by (simp only: of_int_le_iff)
  with r k show ?thesis
    by (cases "pow2 1024 \<le> of_int m * pow2 (?e - 52)") auto
qed

lemma round64_numeral:
  "numeral k \<le> (2 ^ 53 :: int) \<Longrightarrow> round64 (numeral k) = Fin (numeral k)"
  using round64_exact [of "numeral k"] by simp

lemma round64_neg_numeral:
  "numeral k \<le> (2 ^ 53 :: int) \<Longrightarrow> round64 (- numeral k) = Fin (- numeral k)"
  using round64_exact [of "- numeral k"] by simp

lemma round64_0 [simp]: "round64 0 = Fin 0"
  by (simp add: round64_def)

lemma round64_1 [simp]: "round64 1 = Fin 1"
  using round64_exact [of 1] by simp

text \<open>
  The sign of a rounded difference. Rounding takes a positive number to \<open>0\<close> only
  below \<open>2^-1075\<close>, and binary64 values are multiples of \<open>2^-1074\<close>: the difference of
  two of them keeps its sign.
\<close>

lemma pow2_not_neg [simp]: "\<not> pow2 e < 0"
  by (simp add: not_less less_imp_le)

lemma pow2_inverse: "pow2 (- k) * pow2 k = 1"
  using pow2_add [of "- k" k] by (simp add: pow2_def)

lemma floor_log2_lower:
  assumes "0 < a"
  shows "pow2 (floor_log2 a) \<le> a"
proof (cases "1 \<le> a")
  case True
  then show ?thesis by (rule floor_log2_bounds)
next
  case False
  let ?c = "\<lceil>1 / a\<rceil>"
  let ?k = "bitlen (?c - 1)"
  from False assms have "1 < 1 / a" by simp
  then have "1 < ?c" by (simp add: less_ceiling_iff)
  then have c1: "0 < ?c - 1" by simp
  from bitlen_bounds [OF c1] have "?c - 1 < 2 ^ nat ?k" by simp
  then have "?c \<le> 2 ^ nat ?k" by simp
  then have "(of_int ?c :: rat) \<le> of_int (2 ^ nat ?k)" by (simp only: of_int_le_iff)
  also have "\<dots> = pow2 ?k"
    using bitlen_nonneg [of "?c - 1"] by (simp add: pow2_nat)
  finally have "of_int ?c \<le> pow2 ?k" .
  moreover have "1 / a \<le> of_int ?c" by (rule le_of_int_ceiling)
  ultimately have "1 / a \<le> pow2 ?k" by (rule order_trans [rotated])
  then have "1 \<le> pow2 ?k * a"
    using assms by (simp add: pos_divide_le_eq)
  then have "pow2 (- ?k) * 1 \<le> pow2 (- ?k) * (pow2 ?k * a)"
    by (rule mult_left_mono) (simp add: less_imp_le)
  then have "pow2 (- ?k) \<le> a"
    using pow2_inverse [of ?k] by (simp add: mult.assoc [symmetric])
  with False show ?thesis by (simp add: floor_log2_def)
qed

lemma rhe_nonneg: "0 \<le> q \<Longrightarrow> 0 \<le> round_half_even q"
  using rhe_ge_floor [of q] by (simp add: order_trans [of 0 "\<lfloor>q\<rfloor>"])

lemma rhe_pos_iff:
  assumes "0 \<le> q"
  shows "1 \<le> round_half_even q \<longleftrightarrow> 1 / 2 < q"
proof (cases "1 \<le> q")
  case True
  then have "1 \<le> \<lfloor>q\<rfloor>" by simp
  with rhe_ge_floor [of q] have "1 \<le> round_half_even q" by linarith
  with True show ?thesis by simp
next
  case False
  with assms have "\<lfloor>q\<rfloor> = 0" by (simp add: floor_eq_iff)
  then show ?thesis by (simp add: round_half_even_def Let_def)
qed

lemma round64_pos_iff:
  assumes "0 < r"
  shows "js_pos (round64 r) \<longleftrightarrow> pow2 (- 1075) < r"
proof -
  let ?e = "max (floor_log2 r) (- 1022)"
  let ?ulp = "pow2 (?e - 52)"
  let ?m = "round_half_even (r / ?ulp)"
  let ?v = "of_int ?m * ?ulp"
  have q0: "0 \<le> r / ?ulp" using assms by (simp add: less_imp_le)
  have m0: "0 \<le> ?m" using q0 by (rule rhe_nonneg)
  have r: "round64 r = (if pow2 1024 \<le> ?v then PosInf else Fin ?v)"
    using assms by (simp add: round64_def Let_def)
  have "js_pos (round64 r) \<longleftrightarrow> 0 < ?v"
  proof (cases "pow2 1024 \<le> ?v")
    case True
    then have "0 < ?v" using pow2_pos [of 1024] by linarith
    with True r show ?thesis by simp
  next
    case False
    with r show ?thesis by simp
  qed
  also have "\<dots> \<longleftrightarrow> 0 < ?m"
    by (simp add: zero_less_mult_iff)
  also have "\<dots> \<longleftrightarrow> 1 \<le> ?m"
    by arith
  also have "\<dots> \<longleftrightarrow> 1 / 2 < r / ?ulp"
    using q0 by (rule rhe_pos_iff)
  also have "\<dots> \<longleftrightarrow> ?ulp / 2 < r"
    by (simp add: pos_less_divide_eq mult.commute)
  also have "?ulp / 2 = pow2 (?e - 53)"
    using pow2_add [of "?e - 53" 1] by (simp add: pow2_nat)
  also have "pow2 (?e - 53) < r \<longleftrightarrow> pow2 (- 1075) < r"
  proof (cases "- 1022 \<le> floor_log2 r")
    case True
    then have e: "?e = floor_log2 r" by simp
    have "pow2 (?e - 53) < pow2 ?e"
      using pow2_add [of "?e - 53" 53] pow2_pos [of "?e - 53"] by (simp add: pow2_nat)
    with floor_log2_lower [OF assms] have a: "pow2 (?e - 53) < r" by (simp add: e)
    have "pow2 (- 1075) < pow2 (- 1022)"
      using pow2_add [of "- 1075" 53] pow2_pos [of "- 1075"] by (simp add: pow2_nat)
    also have "\<dots> \<le> pow2 (floor_log2 r)" using True by (rule pow2_mono)
    also have "\<dots> \<le> r" using assms by (rule floor_log2_lower)
    finally show ?thesis using a by simp
  next
    case False
    then have "?e = - 1022" by simp
    then show ?thesis by simp
  qed
  finally show ?thesis .
qed

lemma round64_nonpos: "r \<le> 0 \<Longrightarrow> \<not> js_pos (round64 r)"
proof (cases "r = 0")
  case True
  then show ?thesis by (simp add: round64_def)
next
  case False
  assume "r \<le> 0"
  with False have neg: "r < 0" by simp
  let ?ulp = "pow2 (max (floor_log2 \<bar>r\<bar>) (- 1022) - 52)"
  have "0 \<le> \<bar>r\<bar> / ?ulp" by (simp add: less_imp_le)
  then have "0 \<le> round_half_even (\<bar>r\<bar> / ?ulp)" by (rule rhe_nonneg)
  then have "0 \<le> of_int (round_half_even (\<bar>r\<bar> / ?ulp)) * ?ulp"
    by (simp add: less_imp_le)
  with neg False show ?thesis by (simp add: round64_def Let_def)
qed

lemma round64_grid:
  assumes "round64 r = Fin v"
  shows "\<exists>k::int. v = of_int k * pow2 (- 1074)"
proof (cases "r = 0")
  case True
  with assms have "v = of_int 0 * pow2 (- 1074)" by (simp add: round64_def)
  then show ?thesis by blast
next
  case False
  define e where "e = max (floor_log2 \<bar>r\<bar>) (- 1022)"
  define u where "u = pow2 (e - 52)"
  define m where "m = round_half_even (\<bar>r\<bar> / u)"
  have "0 \<le> e + 1022" by (simp add: e_def)
  then have ulp: "u = of_int (2 ^ nat (e + 1022)) * pow2 (- 1074)"
    using pow2_add [of "e + 1022" "- 1074"] by (simp add: u_def pow2_nat)
  from assms False have "v = (if r < 0 then - (of_int m * u) else of_int m * u)"
    by (simp add: round64_def Let_def e_def u_def m_def split: if_splits)
  then have "v = of_int ((if r < 0 then - 1 else 1) * m * 2 ^ nat (e + 1022)) * pow2 (- 1074)"
    by (simp add: ulp)
  then show ?thesis by blast
qed

lemma round64_sign:
  assumes "round64 a = Fin a" and "round64 b = Fin b"
  shows "js_pos (round64 (a - b)) \<longleftrightarrow> b < a"
proof (cases "b < a")
  case True
  from round64_grid [OF assms(1)] round64_grid [OF assms(2)]
  obtain k l :: int where k: "a = of_int k * pow2 (- 1074)" and l: "b = of_int l * pow2 (- 1074)"
    by blast
  then have d: "a - b = of_int (k - l) * pow2 (- 1074)"
    by (simp add: algebra_simps)
  with True have "0 < of_int (k - l) * pow2 (- 1074)" by simp
  then have "0 < (of_int (k - l) :: rat)"
    using pow2_pos [of "- 1074"] by (simp add: zero_less_mult_iff)
  then have "1 \<le> k - l" by simp
  then have "(1::rat) \<le> of_int (k - l)" by (simp only: of_int_1_le_iff)
  then have "1 * pow2 (- 1074) \<le> of_int (k - l) * pow2 (- 1074)"
    by (rule mult_right_mono) (simp add: less_imp_le)
  then have "pow2 (- 1074) \<le> a - b" by (simp add: d)
  moreover have "pow2 (- 1075) < pow2 (- 1074)"
    using pow2_add [of "- 1075" 1] pow2_pos [of "- 1075"] by (simp add: pow2_nat)
  ultimately have "pow2 (- 1075) < a - b" by linarith
  moreover from True have "0 < a - b" by simp
  ultimately have "js_pos (round64 (a - b))" by (simp add: round64_pos_iff)
  with True show ?thesis by simp
next
  case False
  then have "a - b \<le> 0" by simp
  then have "\<not> js_pos (round64 (a - b))" by (rule round64_nonpos)
  with False show ?thesis by simp
qed

subsection \<open>The example store\<close>

lemma example_memory_posted:
  "fst (post_properties example_host 1700000060000 1700000060000 body_lyon
         (fst (post_properties example_host 1700000000000 1700000000000 body_paris [])))
   = example_memory"
  by code_simp

subsection \<open>findIndex\<close>

lemma findIndex_None_iff: "findIndex P xs = None \<longleftrightarrow> (\<forall>x\<in>set xs. \<not> P x)"
  by (induction xs) (auto split: option.splits)

lemma findIndex_SomeD:
  "findIndex P xs = Some i \<Longrightarrow> i < length xs \<and> P (xs ! i) \<and> (\<forall>j<i. \<not> P (xs ! j))"
proof (induction xs arbitrary: i)
  case Nil
  then show ?case by simp
next
  case (Cons x xs)
  show ?case
  proof (cases "P x")
    case True
    with Cons.prems show ?thesis by simp
  next
    case False
    with Cons.prems obtain k where k: "findIndex P xs = Some k" "i = Suc k"
      by (auto split: option.splits)
    from Cons.IH [OF k(1)] False k(2) show ?thesis
      by (auto simp: nth_Cons split: nat.splits)
  qed
qed

subsection \<open>Page and page size\<close>

lemma round64_int_small:
  "\<bar>n\<bar> \<le> 2 ^ 53 \<Longrightarrow> round64 (of_int n) = Fin (of_int n)"
  by (rule round64_exact)

lemma round64_int_large:
  assumes "2 ^ 53 \<le> n"
  shows "round64 (of_int n) = PosInf \<or> (\<exists>m. 2 ^ 53 \<le> m \<and> round64 (of_int n) = Fin (of_int m))"
  using assms by (rule round64_integral)

lemma round64_int_large_neg:
  assumes "n \<le> - (2 ^ 53)"
  shows "round64 (of_int n) = NegInf \<or> (\<exists>m. m \<le> - (2 ^ 53) \<and> round64 (of_int n) = Fin (of_int m))"
proof -
  from assms have "2 ^ 53 \<le> - n" by simp
  from round64_integral [OF this] round64_minus [of "of_int n"]
  have "js_neg (round64 (of_int n)) = PosInf
      \<or> (\<exists>m. 2 ^ 53 \<le> m \<and> js_neg (round64 (of_int n)) = Fin (of_int m))"
    by simp
  then show ?thesis
  proof
    assume "js_neg (round64 (of_int n)) = PosInf"
    then show ?thesis by (cases "round64 (of_int n)") auto
  next
    assume "\<exists>m. 2 ^ 53 \<le> m \<and> js_neg (round64 (of_int n)) = Fin (of_int m)"
    then obtain m where m: "2 ^ 53 \<le> m" "js_neg (round64 (of_int n)) = Fin (of_int m)" by blast
    then have "round64 (of_int n) = Fin (of_int (- m))"
      by (cases "round64 (of_int n)") auto
    with m(1) show ?thesis by (intro disjI2 exI [of _ "- m"]) simp
  qed
qed

lemma pageNum_eq:
  "pageNum p =
     (case mathInt (case p of None \<Rightarrow> ''1'' | Some s \<Rightarrow> s) of
        None \<Rightarrow> Fin 1
      | Some n \<Rightarrow> if n < 1 then Fin 1 else round64 (of_int n))"
proof (cases "mathInt (case p of None \<Rightarrow> ''1'' | Some s \<Rightarrow> s)")
  case None
  then show ?thesis
    by (simp add: pageNum_def parseInt10_def or_default_def js_max_def)
next
  case (Some n)
  consider "\<bar>n\<bar> \<le> 2 ^ 53" | "2 ^ 53 \<le> n" | "n \<le> - (2 ^ 53)" by linarith
  then show ?thesis
  proof cases
    case 1
    then show ?thesis
      using Some by (simp add: pageNum_def parseInt10_def or_default_def js_max_def round64_int_small)
  next
    case 2
    then have n1: "\<not> n < 1" by simp
    from round64_int_large [OF 2] show ?thesis
    proof
      assume "round64 (of_int n) = PosInf"
      then show ?thesis
        using Some n1 by (simp add: pageNum_def parseInt10_def or_default_def js_max_def)
    next
      assume "\<exists>m. 2 ^ 53 \<le> m \<and> round64 (of_int n) = Fin (of_int m)"
      then obtain m where m: "2 ^ 53 \<le> m" "round64 (of_int n) = Fin (of_int m)" by blast
      then have "1 \<le> m" "m \<noteq> 0" by simp_all
      then show ?thesis
        using Some n1 m(2) by (simp add: pageNum_def parseInt10_def or_default_def js_max_def)
    qed
  next
    case 3
    then have n1: "n < 1" by simp
    from round64_int_large_neg [OF 3] show ?thesis
    proof
      assume "round64 (of_int n) = NegInf"
      then show ?thesis
        using Some n1 by (simp add: pageNum_def parseInt10_def or_default_def js_max_def)
    next
      assume "\<exists>m. m \<le> - (2 ^ 53) \<and> round64 (of_int n) = Fin (of_int m)"
      then obtain m where m: "m \<le> - (2 ^ 53)" "round64 (of_int n) = Fin (of_int m)" by blast
      then have "m < 1" "m \<noteq> 0" by simp_all
      then show ?thesis
        using Some n1 m(2) by (simp add: pageNum_def parseInt10_def or_default_def js_max_def)
    qed
  qed
qed

lemma sizeNum_eq:
  "sizeNum p =
     Fin (of_int (case mathInt (case p of None \<Rightarrow> ''20'' | Some s \<Rightarrow> s) of
                    None \<Rightarrow> 20
                  | Some n \<Rightarrow> if n = 0 then 20 else min (max n 1) 100))"
proof (cases "mathInt (case p of None \<Rightarrow> ''20'' | Some s \<Rightarrow> s)")
  case None
  then show ?thesis
    by (simp add: sizeNum_def parseInt10_def or_default_def js_max_def js_min_def)
next
  case (Some n)
  consider "\<bar>n\<bar> \<le> 2 ^ 53" | "2 ^ 53 \<le> n" | "n \<le> - (2 ^ 53)" by linarith
  then show ?thesis
  proof cases
    case 1
    then show ?thesis
      using Some
      by (simp add: sizeNum_def parseInt10_def or_default_def js_max_def js_min_def
          round64_int_small)
  next
    case 2
    then have n: "n \<noteq> 0" "min (max n 1) 100 = 100" by simp_all
    from round64_int_large [OF 2] show ?thesis
    proof
      assume "round64 (of_int n) = PosInf"
      then show ?thesis
        using Some n by (simp add: sizeNum_def parseInt10_def or_default_def js_max_def js_min_def)
    next
      assume "\<exists>m. 2 ^ 53 \<le> m \<and> round64 (of_int n) = Fin (of_int m)"
      then obtain m where m: "2 ^ 53 \<le> m" "round64 (of_int n) = Fin (of_int m)" by blast
      then have "1 \<le> m" "m \<noteq> 0" "100 < m" by simp_all
      then show ?thesis
        using Some n m(2)
        by (simp add: sizeNum_def parseInt10_def or_default_def js_max_def js_min_def)
    qed
  next
    case 3
    then have n: "n \<noteq> 0" "min (max n 1) 100 = 1" by simp_all
    from round64_int_large_neg [OF 3] show ?thesis
    proof
      assume "round64 (of_int n) = NegInf"
      then show ?thesis
        using Some n by (simp add: sizeNum_def parseInt10_def or_default_def js_max_def js_min_def)
    next
      assume "\<exists>m. m \<le> - (2 ^ 53) \<and> round64 (of_int n) = Fin (of_int m)"
      then obtain m where m: "m \<le> - (2 ^ 53)" "round64 (of_int n) = Fin (of_int m)" by blast
      then have "m < 1" "m \<noteq> 0" by simp_all
      then show ?thesis
        using Some n m(2)
        by (simp add: sizeNum_def parseInt10_def or_default_def js_max_def js_min_def)
    qed
  qed
qed

lemma pageNum_cases:
  "pageNum p = PosInf \<or> (\<exists>m. 1 \<le> m \<and> pageNum p = Fin (of_int m))"
proof (cases "mathInt (case p of None \<Rightarrow> ''1'' | Some s \<Rightarrow> s)")
  case None
  then have "pageNum p = Fin (of_int 1)" by (simp add: pageNum_eq)
  then show ?thesis by (intro disjI2 exI [of _ 1]) simp
next
  case (Some n)
  show ?thesis
  proof (cases "n < 1")
    case True
    with Some have "pageNum p = Fin (of_int 1)" by (simp add: pageNum_eq)
    then show ?thesis by (intro disjI2 exI [of _ 1]) simp
  next
    case False
    with Some have eq: "pageNum p = round64 (of_int n)" by (simp add: pageNum_eq)
    show ?thesis
    proof (cases "n \<le> 2 ^ 53")
      case True
      with False have "round64 (of_int n) = Fin (of_int n)" by (simp add: round64_int_small)
      with eq False show ?thesis by (intro disjI2 exI [of _ n]) simp
    next
      case False
      then have "2 ^ 53 \<le> n" by simp
      from round64_int_large [OF this] eq show ?thesis
        by (metis (no_types, opaque_lifting) le_numeral_extra(4) one_le_numeral one_le_power order_trans)
    qed
  qed
qed

lemma sizeNum_cases: "\<exists>s. 1 \<le> s \<and> s \<le> 100 \<and> sizeNum p = Fin (of_int s)"
  by (subst sizeNum_eq) (auto split: option.splits)

text \<open>
  C4, as stated, at \<open>pageSize=0\<close>: \<open>parseInt\<close> gives the integer \<open>0\<close>, whose clamp
  to \<open>[1, 100]\<close> is \<open>1\<close>, and the handler uses \<open>20\<close>, since \<open>0 || 20\<close> is \<open>20\<close>.
\<close>

theorem pageSize_zero_not_clamped:
  "parseInt10 ''0'' = Fin 0 \<and> sizeNum (Some ''0'') = Fin 20
   \<and> sizeNum (Some ''0'') \<noteq> js_min (js_max (Fin 0) (Fin 1)) (Fin 100)"
  by (simp add: sizeNum_def or_default_def parseInt10_def mathInt_def trimStart_def is_ws_def
      is_digit_in_def char_digit_def digits_val_def js_max_def js_min_def)

text \<open>
  The effective page is not always an integer either: a \<open>page\<close> of 401 nines parses
  to an integer above \<open>2^1024\<close>, which \<open>parseInt\<close> returns as \<open>Infinity\<close>; and a
  \<open>page\<close> above \<open>2^53\<close> is rounded to a binary64 value: \<open>2^53 + 1\<close> gives \<open>2^53\<close>.
\<close>

lemma mathInt_nines: "mathInt (replicate 401 CHR ''9'') = Some (10 ^ 401 - 1)"
  by code_simp

lemma page_overflows_to_infinity: "pageNum (Some (replicate 401 CHR ''9'')) = PosInf"
proof -
  have "(2::rat) ^ 1024 \<le> of_int (10 ^ 401 - 1)" by simp
  then have "round64 (of_int (10 ^ 401 - 1)) = PosInf" by (rule round64_overflow)
  then show ?thesis by (simp add: pageNum_eq mathInt_nines)
qed

lemma round64_above_2_53: "round64 9007199254740993 = Fin 9007199254740992"
  by code_simp

lemma mathInt_above_2_53: "mathInt ''9007199254740993'' = Some 9007199254740993"
  by code_simp

lemma page_rounded_to_binary64: "pageNum (Some ''9007199254740993'') = Fin 9007199254740992"
  using round64_above_2_53 by (simp add: pageNum_eq mathInt_above_2_53)

text \<open>
  C4, amended. For every \<open>page\<close> and \<open>pageSize\<close> parameter, absent or any string: the
  effective page is a number that is at least \<open>1\<close>, an integer or \<open>Infinity\<close>. It is
  \<open>1\<close> when nothing parses or the parsed integer is below \<open>1\<close>, and otherwise the parsed
  integer as \<open>parseInt\<close> returns it: rounded to binary64, so the integer itself up to
  \<open>2^53\<close> and \<open>Infinity\<close> from \<open>2^1024\<close> on. The effective page size is an integer of
  \<open>[1, 100]\<close>: \<open>20\<close> when nothing parses or when the parsed integer is \<open>0\<close>, and
  otherwise the parsed integer clamped to \<open>[1, 100]\<close>.
\<close>

theorem page_and_pageSize_normalised:
  "js_ge (pageNum p) (Fin 1)
   \<and> (pageNum p = PosInf \<or> (\<exists>m. 1 \<le> m \<and> pageNum p = Fin (of_int m)))
   \<and> pageNum p = (case mathInt (case p of None \<Rightarrow> ''1'' | Some s \<Rightarrow> s) of
                    None \<Rightarrow> Fin 1
                  | Some n \<Rightarrow> if n < 1 then Fin 1 else round64 (of_int n))
   \<and> (\<forall>n. mathInt (case p of None \<Rightarrow> ''1'' | Some s \<Rightarrow> s) = Some n \<and> 1 \<le> n \<and> n \<le> 2 ^ 53
          \<longrightarrow> pageNum p = Fin (of_int n))
   \<and> (\<forall>n. mathInt (case p of None \<Rightarrow> ''1'' | Some s \<Rightarrow> s) = Some n \<and> 2 ^ 1024 \<le> n
          \<longrightarrow> pageNum p = PosInf)
   \<and> (\<exists>s. 1 \<le> s \<and> s \<le> 100 \<and> sizeNum q = Fin (of_int s))
   \<and> sizeNum q = Fin (of_int (case mathInt (case q of None \<Rightarrow> ''20'' | Some s \<Rightarrow> s) of
                                 None \<Rightarrow> 20
                               | Some n \<Rightarrow> if n = 0 then 20 else min (max n 1) 100))"
proof -
  have ge: "js_ge (pageNum p) (Fin 1)"
    using pageNum_cases [of p] by (auto simp: js_ge_def)
  have small: "pageNum p = Fin (of_int n)"
    if "mathInt (case p of None \<Rightarrow> ''1'' | Some s \<Rightarrow> s) = Some n \<and> 1 \<le> n \<and> n \<le> 2 ^ 53" for n
    using that by (simp add: pageNum_eq round64_int_small)
  have big: "pageNum p = PosInf"
    if "mathInt (case p of None \<Rightarrow> ''1'' | Some s \<Rightarrow> s) = Some n \<and> 2 ^ 1024 \<le> n" for n
  proof -
    from that have "of_int (2 ^ 1024) \<le> (of_int n :: rat)" by (simp only: of_int_le_iff)
    then have "(2::rat) ^ 1024 \<le> of_int n" by simp
    then have r: "round64 (of_int n) = PosInf" by (rule round64_overflow)
    have "(1::int) \<le> 2 ^ 1024" by simp
    with that have "\<not> n < 1" by linarith
    with that r show ?thesis by (simp add: pageNum_eq)
  qed
  show ?thesis
    using ge pageNum_cases [of p] pageNum_eq [of p] small big sizeNum_cases [of q] sizeNum_eq [of q]
    by blast
qed

theorem page_and_pageSize_normalised_witness:
  "pageNum (Some ''-3'') = Fin 1 \<and> pageNum (Some ''7'') = Fin 7 \<and> pageNum (Some ''x'') = Fin 1
   \<and> sizeNum (Some ''500'') = Fin 100 \<and> sizeNum (Some ''-3'') = Fin 1
   \<and> sizeNum (Some ''x'') = Fin 20 \<and> sizeNum None = Fin 20 \<and> pageNum None = Fin 1"
  using page_and_pageSize_normalised [of "Some ''-3''" "Some ''500''"]
    page_and_pageSize_normalised [of "Some ''7''" "Some ''-3''"]
    page_and_pageSize_normalised [of "Some ''x''" "Some ''x''"]
    page_and_pageSize_normalised [of None None]
  by (simp add: mathInt_def trimStart_def is_ws_def is_digit_in_def char_digit_def digits_val_def
      round64_numeral)

subsection \<open>The page window, lines 126-127\<close>

text \<open>
  The page window. \<open>memory\<close> is a JavaScript array and holds fewer than \<open>2^32\<close>
  records. Up to page \<open>2^46\<close> the arithmetic of lines 126-127 is exact; beyond, the start
  index is at least \<open>2^46\<close>, past the end of every array, whatever the rounding.
\<close>

lemma relative_index_int:
  "0 \<le> a \<Longrightarrow> relative_index (Fin (of_int a)) len = min (nat a) len"
  by (simp add: relative_index_def trunc_def)

lemma take_min_length: "take (min n (length xs)) xs = take n xs"
  by (cases "n \<le> length xs") (simp_all add: min_def)

lemma slice_take_drop:
  assumes "0 \<le> a" and "0 \<le> s"
  shows "slice (Fin (of_int a)) (Fin (of_int (a + s))) list = take (nat s) (drop (nat a) list)"
proof (cases "nat a < length list")
  case True
  have k: "relative_index (Fin (of_int a)) (length list) = nat a"
    using True assms by (simp add: relative_index_int)
  have "0 \<le> a + s" using assms by simp
  then have f: "relative_index (Fin (of_int (a + s))) (length list) = min (nat (a + s)) (length list)"
    by (rule relative_index_int)
  have "min (nat (a + s)) (length list) - nat a = min (nat s) (length (drop (nat a) list))"
    using assms True by (simp add: nat_add_distrib) arith
  then show ?thesis
    by (simp only: slice_def Let_def k f take_min_length)
next
  case False
  have k: "relative_index (Fin (of_int a)) (length list) = length list"
    using False assms by (simp add: relative_index_int)
  show ?thesis
    using False by (simp add: slice_def Let_def k)
qed

lemma slice_beyond:
  "relative_index start (length list) = length list \<Longrightarrow> slice start end list = []"
  by (simp add: slice_def)

lemma relative_index_big:
  assumes "2 ^ 46 \<le> v" and "len < 2 ^ 32"
  shows "relative_index (Fin v) len = len"
proof -
  from assms(1) have "of_int (2 ^ 46) \<le> v" by simp
  then have f: "2 ^ 46 \<le> \<lfloor>v\<rfloor>" by (simp only: le_floor_iff)
  have "(0::rat) \<le> 2 ^ 46" by simp
  then have v0: "0 \<le> v" using assms(1) by (rule order_trans)
  have "int len < 2 ^ 32" using assms(2) by (metis of_nat_less_iff of_nat_numeral of_nat_power)
  also have "(2::int) ^ 32 \<le> 2 ^ 46" by simp
  finally have "int len < \<lfloor>v\<rfloor>" using f by (rule less_le_trans)
  then have "\<not> \<lfloor>v\<rfloor> < 0" "len \<le> nat \<lfloor>v\<rfloor>" by linarith+
  then show ?thesis
    using v0 by (simp add: relative_index_def trunc_def min_def Let_def)
qed

lemma start_beyond:
  assumes "start = PosInf \<or> (\<exists>v. start = Fin v \<and> 2 ^ 46 \<le> v)" and "length list < 2 ^ 32"
  shows "slice start end list = []"
proof (rule slice_beyond)
  from assms show "relative_index start (length list) = length list"
    by (auto simp: relative_index_big) (simp add: relative_index_def)
qed

lemma page_window_finite:
  assumes n: "1 \<le> n" and s: "1 \<le> s" "s \<le> 100" and len: "length list < 2 ^ 32"
  shows "slice (start_of (Fin (of_int n)) (Fin (of_int s)))
               (js_add (start_of (Fin (of_int n)) (Fin (of_int s))) (Fin (of_int s))) list
         = take (nat s) (drop (nat ((n - 1) * s)) list)"
proof (cases "n \<le> 2 ^ 46")
  case True
  have b1: "\<bar>n - 1\<bar> \<le> 2 ^ 53" using n True by simp
  have "(n - 1) * s \<le> 2 ^ 46 * 100"
    using n s True by (intro mult_mono) simp_all
  then have b2: "\<bar>(n - 1) * s\<bar> \<le> 2 ^ 53" using n s by simp
  have "n * s \<le> 2 ^ 46 * 100"
    using n s True by (intro mult_mono) simp_all
  then have b3: "\<bar>(n - 1) * s + s\<bar> \<le> 2 ^ 53" using n s by (simp add: algebra_simps)
  have sub: "js_sub (Fin (of_int n)) (Fin 1) = Fin (of_int (n - 1))"
  proof -
    have "js_sub (Fin (of_int n)) (Fin 1) = round64 (of_int n - 1)" by simp
    also have "of_int n - (1::rat) = of_int (n - 1)" by simp
    also have "round64 (of_int (n - 1)) = Fin (of_int (n - 1))" by (rule round64_exact [OF b1])
    finally show ?thesis .
  qed
  have start: "start_of (Fin (of_int n)) (Fin (of_int s)) = Fin (of_int ((n - 1) * s))"
  proof -
    have "start_of (Fin (of_int n)) (Fin (of_int s)) = round64 (of_int (n - 1) * of_int s)"
      by (simp only: start_of_def sub js_mul.simps)
    also have "of_int (n - 1) * (of_int s :: rat) = of_int ((n - 1) * s)" by simp
    also have "round64 (of_int ((n - 1) * s)) = Fin (of_int ((n - 1) * s))"
      by (rule round64_exact [OF b2])
    finally show ?thesis .
  qed
  have stop: "js_add (Fin (of_int ((n - 1) * s))) (Fin (of_int s)) = Fin (of_int ((n - 1) * s + s))"
  proof -
    have "js_add (Fin (of_int ((n - 1) * s))) (Fin (of_int s))
        = round64 (of_int ((n - 1) * s) + of_int s)"
      by (simp only: js_add.simps)
    also have "of_int ((n - 1) * s) + (of_int s :: rat) = of_int ((n - 1) * s + s)" by simp
    also have "round64 (of_int ((n - 1) * s + s)) = Fin (of_int ((n - 1) * s + s))"
      by (rule round64_exact [OF b3])
    finally show ?thesis .
  qed
  have "0 \<le> (n - 1) * s" using n s by simp
  moreover have "0 \<le> s" using s by simp
  ultimately have "slice (Fin (of_int ((n - 1) * s))) (Fin (of_int ((n - 1) * s + s))) list
      = take (nat s) (drop (nat ((n - 1) * s)) list)"
    by (rule slice_take_drop)
  then show ?thesis
    by (simp only: start stop)
next
  case False
  then have big: "2 ^ 46 \<le> n - 1" by simp
  then have "(2::rat) ^ 46 \<le> of_int (n - 1)"
    by (metis of_int_le_iff of_int_numeral of_int_power)
  from round64_lower [OF this]
  have sub: "js_sub (Fin (of_int n)) (Fin 1) = PosInf
      \<or> (\<exists>v. js_sub (Fin (of_int n)) (Fin 1) = Fin v \<and> 2 ^ 46 \<le> v)"
    by simp
  have s0: "(0::rat) < of_int s" "(1::rat) \<le> of_int s" using s by simp_all
  have start: "start_of (Fin (of_int n)) (Fin (of_int s)) = PosInf
      \<or> (\<exists>w. start_of (Fin (of_int n)) (Fin (of_int s)) = Fin w \<and> 2 ^ 46 \<le> w)"
    using sub
  proof
    assume "js_sub (Fin (of_int n)) (Fin 1) = PosInf"
    then show ?thesis using s0 by (simp add: start_of_def)
  next
    assume "\<exists>v. js_sub (Fin (of_int n)) (Fin 1) = Fin v \<and> 2 ^ 46 \<le> v"
    then obtain v where v: "js_sub (Fin (of_int n)) (Fin 1) = Fin v" "2 ^ 46 \<le> v" by blast
    have "2 ^ 46 * 1 \<le> v * of_int s"
      using v(2) s0 by (intro mult_mono) simp_all
    then have "2 ^ 46 \<le> v * of_int s" by simp
    from round64_lower [OF this] v(1) show ?thesis by (simp add: start_of_def)
  qed
  from start len have "slice (start_of (Fin (of_int n)) (Fin (of_int s)))
               (js_add (start_of (Fin (of_int n)) (Fin (of_int s))) (Fin (of_int s))) list = []"
    by (rule start_beyond)
  moreover have "drop (nat ((n - 1) * s)) list = []"
  proof -
    have "2 ^ 46 * 1 \<le> (n - 1) * s" using big s by (intro mult_mono) simp_all
    moreover have "int (length list) < 2 ^ 32"
      using len by (metis of_nat_less_iff of_nat_numeral of_nat_power)
    moreover have "(2::int) ^ 32 \<le> 2 ^ 46" by simp
    ultimately have "length list \<le> nat ((n - 1) * s)" by linarith
    then show ?thesis by simp
  qed
  ultimately show ?thesis by simp
qed

lemma page_window_infinite:
  assumes "1 \<le> s" and "length list < 2 ^ 32"
  shows "slice (start_of PosInf (Fin (of_int s))) (js_add (start_of PosInf (Fin (of_int s))) (Fin (of_int s))) list
         = []"
proof (rule start_beyond)
  show "start_of PosInf (Fin (of_int s)) = PosInf
      \<or> (\<exists>v. start_of PosInf (Fin (of_int s)) = Fin v \<and> 2 ^ 46 \<le> v)"
    using assms(1) by (simp add: start_of_def)
  show "length list < 2 ^ 32" by (rule assms)
qed

subsection \<open>PUT /api/properties/:id\<close>

text \<open>
  C7. When no record of \<open>memory\<close> carries the id, PUT answers 404 and \<open>memory\<close> is the
  same list afterwards.
\<close>

theorem put_absent_id_404:
  assumes "\<forall>x\<in>set memory. p_id x \<noteq> ident"
  shows "put_property ident b memory = (memory, Fail 404)"
proof -
  from assms have "findIndex (\<lambda>x. p_id x = ident) memory = None"
    by (simp add: findIndex_None_iff)
  then show ?thesis by (simp add: put_property_def)
qed


theorem put_absent_id_404_witness:
  "''1700000000001'' \<notin> p_id ` set example_memory
   \<and> put_property ''1700000000001'' body_lyon example_memory = (example_memory, Fail 404)"
proof -
  have h: "\<forall>x\<in>set example_memory. p_id x \<noteq> ''1700000000001''"
    by code_simp
  from put_absent_id_404 [OF h] h show ?thesis by auto
qed

text \<open>
  C9. When some record carries the id, PUT answers 200 with the first such record
  updated: \<open>_id\<close> and \<open>createdAt\<close> are kept, the three payload members are the values
  of the request body (\<open>undefined\<close> for a missing one), and every other position of
  \<open>memory\<close> holds what it held.
\<close>

theorem put_replaces_payload_only:
  assumes "ident \<in> p_id ` set memory"
  shows "\<exists>i r. i < length memory \<and> put_property ident b memory = (memory[i := r], Ok 200 r)
           \<and> p_id (memory ! i) = ident \<and> (\<forall>j<i. p_id (memory ! j) \<noteq> ident)
           \<and> p_id r = p_id (memory ! i) \<and> createdAt r = createdAt (memory ! i)
           \<and> price r = member b ''price'' \<and> location r = member b ''location''
           \<and> rentalYield r = member b ''rentalYield''
           \<and> length (memory[i := r]) = length memory
           \<and> (\<forall>j<length memory. j \<noteq> i \<longrightarrow> memory[i := r] ! j = memory ! j)"
proof -
  from assms have "findIndex (\<lambda>x. p_id x = ident) memory \<noteq> None"
    by (auto simp: findIndex_None_iff)
  then obtain i where i: "findIndex (\<lambda>x. p_id x = ident) memory = Some i"
    by auto
  from findIndex_SomeD [OF i]
  have props: "i < length memory" "p_id (memory ! i) = ident" "\<forall>j<i. p_id (memory ! j) \<noteq> ident"
    by auto
  define r where "r = (memory ! i)\<lparr>price := member b ''price'', location := member b ''location'',
      rentalYield := member b ''rentalYield''\<rparr>"
  have "put_property ident b memory = (memory[i := r], Ok 200 r)"
    by (simp add: put_property_def i r_def Let_def)
  moreover have "p_id r = p_id (memory ! i)" "createdAt r = createdAt (memory ! i)"
    "price r = member b ''price''" "location r = member b ''location''"
    "rentalYield r = member b ''rentalYield''"
    by (simp_all add: r_def)
  ultimately show ?thesis using props by (intro exI [of _ i] exI [of _ r]) simp
qed

theorem put_replaces_payload_only_witness:
  "''1700000000000'' \<in> p_id ` set example_memory
   \<and> put_property ''1700000000000'' [''price'' \<mapsto> JNum (Fin 1200)] example_memory
       = ([rec_lyon, rec_paris\<lparr>price := JNum (Fin 1200), location := JUndefined,
                                rentalYield := JUndefined\<rparr>],
          Ok 200 (rec_paris\<lparr>price := JNum (Fin 1200), location := JUndefined,
                             rentalYield := JUndefined\<rparr>))"
proof -
  have h: "''1700000000000'' \<in> p_id ` set example_memory"
    by code_simp
  from put_replaces_payload_only [OF h, of "[''price'' \<mapsto> JNum (Fin 1200)]"]
  obtain i r where ir: "i < length example_memory"
    "put_property ''1700000000000'' [''price'' \<mapsto> JNum (Fin 1200)] example_memory
       = (example_memory[i := r], Ok 200 r)"
    "p_id (example_memory ! i) = ''1700000000000''"
    "p_id r = p_id (example_memory ! i)" "createdAt r = createdAt (example_memory ! i)"
    "price r = member [''price'' \<mapsto> JNum (Fin 1200)] ''price''"
    "location r = member [''price'' \<mapsto> JNum (Fin 1200)] ''location''"
    "rentalYield r = member [''price'' \<mapsto> JNum (Fin 1200)] ''rentalYield''"
    by blast
  have i1: "i = 1"
    using ir(1,3) by (auto simp: example_memory_def rec_lyon_def rec_paris_def less_Suc_eq)
  have "r = rec_paris\<lparr>price := JNum (Fin 1200), location := JUndefined, rentalYield := JUndefined\<rparr>"
    using ir(4-8) i1 by (simp add: example_memory_def rec_paris_def member_def)
  with ir(2) i1 h show ?thesis
    by (simp add: example_memory_def)
qed

subsection \<open>Evaluating concrete requests\<close>

lemmas eval_defs =
  get_properties_def get_properties_with_def filtered_def build_filter_def make_bounds_def
  bound_of_def truthy_def apply_location_def apply_range_def compare_fn_def sort_operand_def
  own_prop_def inherited_def sortBy_of_def order_of_def start_of_def slice_def
  relative_index_def trunc_def pageNum_def sizeNum_def or_default_def js_max_def js_min_def
  parseInt10_def mathInt_def trimStart_def trim_def is_ws_def is_digit_in_def char_digit_def
  digits_val_def string_to_number_def unsigned_decimal_def exponent_part_def scale10_def
  radix_literal_def round64_numeral round64_neg_numeral
  selects_def in_range_def js_ge_def js_le_def Let_def
  example_host_def lower_def
  rec_paris_def rec_lyon_def rec_paris2_def example_memory_def scenario_memory_def
  no_params_def scenario_page2_def minPrice_abc_def maxYield_empty_def sort_id_asc_def
  sort_unknown_asc_def sort_createdAt_asc_def sort_price_asc_def sort_location_desc_def

lemma scenario_memory_posted:
  "fst (post_properties example_host 1700000120000 1700000120000 body_paris2
         (fst (post_properties example_host 1700000060000 1700000060000 body_lyon
           (fst (post_properties example_host 1700000000000 1700000000000 body_paris [])))))
   = scenario_memory"
  by code_simp

subsection \<open>POST /api/properties\<close>

text \<open>
  In memory mode the handler never rejects a body: whatever members it has, a record is
  put in front of \<open>memory\<close> and sent back with status 201.
\<close>

lemma post_never_rejects:
  "\<exists>obj. post_properties h now now' b memory = (obj # memory, Ok 201 obj)
         \<and> p_id obj = int_to_string now \<and> price obj = JNum (to_number (member b ''price''))
         \<and> location obj = JStr (to_string h (member b ''location''))
         \<and> rentalYield obj = JNum (to_number (member b ''rentalYield''))"
  by (simp add: post_properties_def Let_def)

text \<open>
  C5, at the failing input: a POST whose body has none of \<open>price\<close>, \<open>location\<close>,
  \<open>rentalYield\<close>. The claim asks for status 400 and an unchanged store; the handler
  answers 201 and stores a record with \<open>NaN\<close>, \<open>"undefined"\<close> and \<open>NaN\<close>.
\<close>

theorem post_without_members_201:
  "post_properties example_host 1700000000000 1700000000000 empty_body []
     = ([rec_blank], Ok 201 rec_blank)"
  by code_simp

text \<open>
  C6, at the failing input: two POSTs that read the same value of \<open>Date.now()\<close>. The
  claim asks for an id distinct from every live record's; the second record gets the id
  of the first, and both are live.
\<close>

theorem post_same_millisecond_same_id:
  "post_properties example_host 1700000000000 1700000000000 body_paris []
     = ([rec_paris], Ok 201 rec_paris)
   \<and> post_properties example_host 1700000000000 1700000000000 body_lyon [rec_paris]
     = ([rec_twin, rec_paris], Ok 201 rec_twin)
   \<and> p_id rec_twin = p_id rec_paris"
  by code_simp

text \<open>
  What does hold of the id: it is never empty, and its digits read back as the clock
  value it was written from, so two POSTs get the same id only when they read the same
  value of \<open>Date.now()\<close>.
\<close>

lemma digit_char_props:
  assumes "0 \<le> d" "d < 10"
  shows "char_digit (digit_char d) = Some d" "\<not> is_ws (digit_char d)"
    "digit_char d \<noteq> CHR ''-''" "digit_char d \<noteq> CHR ''+''" "is_digit_in 10 (digit_char d)"
proof -
  from assms have "d = 0 \<or> d = 1 \<or> d = 2 \<or> d = 3 \<or> d = 4 \<or> d = 5 \<or> d = 6 \<or> d = 7 \<or> d = 8 \<or> d = 9"
    by arith
  then show "char_digit (digit_char d) = Some d" "\<not> is_ws (digit_char d)"
    "digit_char d \<noteq> CHR ''-''" "digit_char d \<noteq> CHR ''+''" "is_digit_in 10 (digit_char d)"
    by (auto simp: digit_char_def char_digit_def is_ws_def is_digit_in_def)
qed

lemma digits_val_snoc:
  "digits_val r (ds @ [c]) = r * digits_val r ds + (case char_digit c of None \<Rightarrow> 0 | Some v \<Rightarrow> v)"
  by (simp add: digits_val_def)

lemma digits_of_props:
  "0 \<le> i \<Longrightarrow> digits_of i \<noteq> [] \<and> list_all (is_digit_in 10) (digits_of i)
     \<and> \<not> is_ws (hd (digits_of i)) \<and> hd (digits_of i) \<noteq> CHR ''-'' \<and> hd (digits_of i) \<noteq> CHR ''+''
     \<and> digits_val 10 (digits_of i) = i"
proof (induction i rule: digits_of.induct)
  case (1 i)
  show ?case
  proof (cases "i < 10")
    case True
    with "1.prems" digit_char_props [of i] show ?thesis
      by (subst (1 2 3 4 5 6) digits_of.simps) (simp add: digits_val_def)
  next
    case False
    then have "0 \<le> i div 10" "0 \<le> i mod 10" "i mod 10 < 10" by simp_all
    with "1.IH" False digit_char_props [of "i mod 10"] show ?thesis
      by (subst (1 2 3 4 5 6) digits_of.simps) (simp add: digits_val_snoc)
  qed
qed

lemma post_id_not_empty: "int_to_string now \<noteq> []"
  using digits_of_props [of now] by (simp add: int_to_string_def)

lemma takeWhile_all: "list_all P xs \<Longrightarrow> takeWhile P xs = xs"
  by (induction xs) auto

lemma mathInt_int_to_string: "mathInt (int_to_string i) = Some i"
proof (cases "i < 0")
  case True
  then have "0 \<le> - i" by simp
  from digits_of_props [OF this] True show ?thesis
    by (simp add: mathInt_def int_to_string_def trimStart_def is_ws_def takeWhile_all)
next
  case False
  then have "0 \<le> i" by simp
  from digits_of_props [OF this] obtain c cs where cs: "digits_of i = c # cs"
    by (cases "digits_of i") auto
  with digits_of_props [OF \<open>0 \<le> i\<close>] False show ?thesis
    by (simp add: mathInt_def int_to_string_def trimStart_def takeWhile_all)
qed

lemma int_to_string_inject: "int_to_string a = int_to_string b \<Longrightarrow> a = b"
  by (metis mathInt_int_to_string option.inject)

lemma post_keeps_ids_distinct:
  assumes "distinct (map p_id memory)" and "int_to_string now \<notin> p_id ` set memory"
  shows "distinct (map p_id (fst (post_properties h now now' b memory)))"
  using assms by (simp add: post_properties_def Let_def)

subsection \<open>GET /api/properties: filtering\<close>

lemma apply_range_filter:
  "apply_range fld (make_bounds lo hi) list = filter (\<lambda>x. in_range lo hi (fld x)) list"
  by (auto simp: apply_range_def make_bounds_def in_range_def bound_of_def truthy_def
      split: option.splits intro: filter_cong)

lemma filtered_Inr:
  "filtered h qry memory = Inr list \<Longrightarrow> list = filter (selects h qry) memory"
  by (auto simp: filtered_def apply_location_def build_filter_def apply_range_filter selects_def
      split: option.splits sum.splits if_splits intro: filter_cong)

lemma filtered_cases:
  "filtered h qry memory =
     (case on_location (build_filter qry) of
        None \<Rightarrow> Inr (filter (selects h qry) memory)
      | Some p \<Rightarrow> (case regExp h p of
                     None \<Rightarrow> Inl SyntaxError
                   | Some test \<Rightarrow> Inr (filter (selects h qry) memory)))"
  by (auto simp: filtered_def apply_location_def build_filter_def apply_range_filter selects_def
      split: option.splits intro: filter_cong)

lemma filtered_page_irrelevant:
  "filtered h (qry(''page'' := p)) memory = filtered h qry memory"
  by (simp add: filtered_def build_filter_def)

lemma js_ge_NaN [simp]: "\<not> js_ge x NaN"
  by (simp add: js_ge_def)

lemma js_le_NaN [simp]: "\<not> js_le x NaN"
  by (simp add: js_le_def)

lemma in_range_NaN:
  "bound_of lo = Some NaN \<or> bound_of hi = Some NaN \<Longrightarrow> \<not> in_range lo hi v"
  by (auto simp: in_range_def)

lemma make_bounds_falsy_lo: "\<not> truthy lo \<Longrightarrow> make_bounds lo hi = make_bounds None hi"
  by (auto simp: make_bounds_def truthy_def bound_of_def split: option.splits)

lemma make_bounds_falsy_hi: "\<not> truthy hi \<Longrightarrow> make_bounds lo hi = make_bounds lo None"
  by (auto simp: make_bounds_def truthy_def bound_of_def split: option.splits)

lemma get_properties_falsy_bound:
  assumes "k \<in> {''minPrice'', ''maxPrice'', ''minYield'', ''maxYield''}" and "\<not> truthy (qry k)"
  shows "get_properties h (qry(k := None)) memory = get_properties h qry memory"
proof -
  have bf: "build_filter (qry(k := None)) = build_filter qry"
    using assms
    by (auto simp: build_filter_def make_bounds_falsy_lo make_bounds_falsy_hi)
  have other: "(qry(k := None)) ''page'' = qry ''page''"
    "(qry(k := None)) ''pageSize'' = qry ''pageSize''"
    "sortBy_of (qry(k := None)) = sortBy_of qry" "order_of (qry(k := None)) = order_of qry"
    using assms(1) by (auto simp: sortBy_of_def order_of_def)
  show ?thesis
    unfolding get_properties_def get_properties_with_def filtered_def bf other by (rule refl)
qed

lemma selects_NaN_bound:
  assumes "k \<in> {''minPrice'', ''maxPrice'', ''minYield'', ''maxYield''}"
    and "bound_of (qry k) = Some NaN"
  shows "\<not> selects h qry x"
  using assms by (auto simp: selects_def in_range_NaN)

text \<open>
  C1, as stated, at \<open>minPrice=abc\<close>: the parameter does not parse as a number, and
  the result is not that of the same query without it. \<open>Number("abc")\<close> is \<open>NaN\<close>,
  the bound is set, and \<open>x.price >= NaN\<close> is false for every record.
\<close>

theorem non_numeric_bound_excludes_all:
  "string_to_number ''abc'' = NaN
   \<and> get_properties example_host minPrice_abc example_memory
       = Ok 200 \<lparr>items = [], total = 0, page = Fin 1, pageSize = Fin 20\<rparr>
   \<and> get_properties example_host (minPrice_abc(''minPrice'' := None)) example_memory
       = Ok 200 \<lparr>items = [rec_lyon, rec_paris], total = 2, page = Fin 1, pageSize = Fin 20\<rparr>"
  by (simp add: eval_defs)

text \<open>
  C1, amended. For each of \<open>minPrice\<close>, \<open>maxPrice\<close>, \<open>minYield\<close>, \<open>maxYield\<close>:
  when the parameter is missing or the empty string, the answer is that of the same query
  without it. When it is a non-empty string that \<open>Number\<close> turns into \<open>NaN\<close>, no
  record is selected: the answer is 200 with no items and total 0, and the bound raises no
  error (the request fails, with 500, only when the pattern of \<open>q\<close> is rejected).
\<close>

theorem bound_falsy_or_not_a_number:
  assumes k: "k \<in> {''minPrice'', ''maxPrice'', ''minYield'', ''maxYield''}"
  shows "(\<not> truthy (qry k) \<longrightarrow>
            get_properties h qry memory = get_properties h (qry(k := None)) memory)
       \<and> (\<forall>s. qry k = Some s \<and> s \<noteq> [] \<and> string_to_number s = NaN \<longrightarrow>
            filter (selects h qry) memory = []
            \<and> get_properties h qry memory =
                (case on_location (build_filter qry) of
                   None \<Rightarrow> Ok 200 \<lparr>items = [], total = 0, page = pageNum (qry ''page''),
                                    pageSize = sizeNum (qry ''pageSize'')\<rparr>
                 | Some p \<Rightarrow>
                     (case regExp h p of
                        None \<Rightarrow> Fail 500
                      | Some test \<Rightarrow> Ok 200 \<lparr>items = [], total = 0, page = pageNum (qry ''page''),
                                              pageSize = sizeNum (qry ''pageSize'')\<rparr>)))"
proof (intro conjI impI allI)
  assume "\<not> truthy (qry k)"
  with k show "get_properties h qry memory = get_properties h (qry(k := None)) memory"
    by (simp add: get_properties_falsy_bound)
next
  fix s assume s: "qry k = Some s \<and> s \<noteq> [] \<and> string_to_number s = NaN"
  then have "bound_of (qry k) = Some NaN"
    by (simp add: bound_of_def)
  with k have none: "\<not> selects h qry x" for x
    by (rule selects_NaN_bound)
  then show empty: "filter (selects h qry) memory = []"
    by simp
  show "get_properties h qry memory =
                (case on_location (build_filter qry) of
                   None \<Rightarrow> Ok 200 \<lparr>items = [], total = 0, page = pageNum (qry ''page''),
                                    pageSize = sizeNum (qry ''pageSize'')\<rparr>
                 | Some p \<Rightarrow>
                     (case regExp h p of
                        None \<Rightarrow> Fail 500
                      | Some test \<Rightarrow> Ok 200 \<lparr>items = [], total = 0, page = pageNum (qry ''page''),
                                              pageSize = sizeNum (qry ''pageSize'')\<rparr>))"
    by (simp add: get_properties_def get_properties_with_def filtered_cases empty slice_def
        split: option.splits)
qed

theorem bound_falsy_or_not_a_number_witness:
  "get_properties example_host maxYield_empty example_memory
     = get_properties example_host (maxYield_empty(''maxYield'' := None)) example_memory
   \<and> get_properties example_host maxYield_empty example_memory
     = Ok 200 \<lparr>items = [rec_paris], total = 1, page = Fin 1, pageSize = Fin 20\<rparr>
   \<and> filter (selects example_host minPrice_abc) example_memory = []
   \<and> get_properties example_host minPrice_abc example_memory
     = Ok 200 \<lparr>items = [], total = 0, page = Fin 1, pageSize = Fin 20\<rparr>"
proof -
  have k1: "''maxYield'' \<in> {''minPrice'', ''maxPrice'', ''minYield'', ''maxYield''}"
    and k2: "''minPrice'' \<in> {''minPrice'', ''maxPrice'', ''minYield'', ''maxYield''}"
    by simp_all
  have falsy: "\<not> truthy (maxYield_empty ''maxYield'')"
    by (simp add: maxYield_empty_def truthy_def)
  have nan: "minPrice_abc ''minPrice'' = Some ''abc'' \<and> ''abc'' \<noteq> [] \<and> string_to_number ''abc'' = NaN"
    by (simp add: eval_defs)
  have a: "get_properties example_host maxYield_empty example_memory
     = get_properties example_host (maxYield_empty(''maxYield'' := None)) example_memory"
    using bound_falsy_or_not_a_number [OF k1, of maxYield_empty example_host example_memory] falsy
    by blast
  have b: "filter (selects example_host minPrice_abc) example_memory = []
    \<and> get_properties example_host minPrice_abc example_memory =
        (case on_location (build_filter minPrice_abc) of
           None \<Rightarrow> Ok 200 \<lparr>items = [], total = 0, page = pageNum (minPrice_abc ''page''),
                            pageSize = sizeNum (minPrice_abc ''pageSize'')\<rparr>
         | Some p \<Rightarrow>
             (case regExp example_host p of
                None \<Rightarrow> Fail 500
              | Some test \<Rightarrow> Ok 200 \<lparr>items = [], total = 0, page = pageNum (minPrice_abc ''page''),
                                      pageSize = sizeNum (minPrice_abc ''pageSize'')\<rparr>))"
    using bound_falsy_or_not_a_number [OF k2, of minPrice_abc example_host example_memory] nan
    by blast
  have c: "get_properties example_host (maxYield_empty(''maxYield'' := None)) example_memory
     = Ok 200 \<lparr>items = [rec_paris], total = 1, page = Fin 1, pageSize = Fin 20\<rparr>"
    by (simp add: eval_defs)
  from a b c show ?thesis
    by (simp add: eval_defs)
qed

subsection \<open>GET /api/properties: sorting\<close>

lemma insert_by_mset: "insert_by cmp x ys = Inr zs \<Longrightarrow> mset zs = add_mset x (mset ys)"
  by (induction ys arbitrary: zs) (auto split: sum.splits if_splits)

lemma sort_by_mset: "sort_by cmp xs = Inr ys \<Longrightarrow> mset ys = mset xs"
  by (induction xs arbitrary: ys) (auto split: sum.splits dest: insert_by_mset)

lemma sort_by_length: "sort_by cmp xs = Inr ys \<Longrightarrow> length ys = length xs"
  by (metis sort_by_mset size_mset)

lemma sort_by_set: "sort_by cmp xs = Inr ys \<Longrightarrow> set ys = set xs"
  by (metis sort_by_mset set_mset_mset)

lemma sort_operand_unknown:
  "k \<notin> {''_id'', ''price'', ''location'', ''rentalYield'', ''createdAt''} \<Longrightarrow>
   sort_operand k x = (if k \<in> set inherited then NaN else Fin 0)"
  by (simp add: sort_operand_def own_prop_def)

lemma compare_fn_unknown:
  assumes "k \<notin> {''_id'', ''price'', ''location'', ''rentalYield'', ''createdAt''}"
  shows "compare_fn h k ord a b = Inr (if k \<in> set inherited then NaN else Fin 0)"
  using assms by (simp add: compare_fn_def sort_operand_unknown Let_def)

lemma insert_by_not_pos:
  "(\<And>y. \<exists>v. cmp x y = Inr v \<and> \<not> js_pos v) \<Longrightarrow> insert_by cmp x ys = Inr (x # ys)"
proof (cases ys)
  case Nil
  then show ?thesis by simp
next
  case (Cons y zs)
  assume "\<And>y. \<exists>v. cmp x y = Inr v \<and> \<not> js_pos v"
  then obtain v where "cmp x y = Inr v" "\<not> js_pos v" by blast
  with Cons show ?thesis by simp
qed

lemma sort_by_never_pos:
  assumes "\<And>x y. \<exists>v. cmp x y = Inr v \<and> \<not> js_pos v"
  shows "sort_by cmp xs = Inr xs"
proof (induction xs)
  case Nil
  show ?case by simp
next
  case (Cons x xs)
  have "insert_by cmp x xs = Inr (x # xs)"
    using assms by (rule insert_by_not_pos)
  with Cons show ?case by simp
qed

text \<open>
  C10, as stated, at \<open>sortBy=_id&order=asc\<close>: \<open>_id\<close> is outside the four sort keys
  of the claim, yet \<open>a["_id"]\<close> is an own member, a string of digits. The comparator is
  not \<open>0\<close> and the items come back oldest first, not in the order of the store.
\<close>

theorem sort_by_id_reorders:
  "sortBy_of sort_id_asc = ''_id''
   \<and> compare_fn example_host ''_id'' ''asc'' rec_lyon rec_paris = Inr (Fin 60000)
   \<and> filtered example_host sort_id_asc example_memory = Inr [rec_lyon, rec_paris]
   \<and> get_properties example_host sort_id_asc example_memory
       = Ok 200 \<lparr>items = [rec_paris, rec_lyon], total = 2, page = Fin 1, pageSize = Fin 20\<rparr>"
  by (simp add: eval_defs)

text \<open>
  C10, amended. When \<open>sortBy\<close> is none of \<open>_id\<close>, \<open>price\<close>, \<open>location\<close>,
  \<open>rentalYield\<close>, \<open>createdAt\<close>, the sort raises nothing and changes nothing: the
  comparator gives \<open>0\<close> on every pair (\<open>NaN\<close>, which sorts as \<open>0\<close>, when the name is
  inherited from \<open>Object.prototype\<close>), and the items are the page window of the filtered
  list in the order of the store: \<open>slice(start, start + sizeNum)\<close>, which for a store of
  fewer than \<open>2^32\<close> records is the \<open>pageSize\<close> records from index
  \<open>(page - 1) * pageSize\<close> on.
\<close>

theorem unknown_sort_key_keeps_order:
  assumes "sortBy_of qry \<notin> {''_id'', ''price'', ''location'', ''rentalYield'', ''createdAt''}"
  shows "(\<forall>a b. compare_fn h (sortBy_of qry) (order_of qry) a b
                  = Inr (if sortBy_of qry \<in> set inherited then NaN else Fin 0))
       \<and> (\<forall>list. sort_by (compare_fn h (sortBy_of qry) (order_of qry)) list = Inr list)
       \<and> get_properties h qry memory =
           (case filtered h qry memory of
              Inl e \<Rightarrow> Fail 500
            | Inr list \<Rightarrow>
                Ok 200 \<lparr>items = slice (start_of (pageNum (qry ''page'')) (sizeNum (qry ''pageSize'')))
                                  (js_add (start_of (pageNum (qry ''page'')) (sizeNum (qry ''pageSize'')))
                                          (sizeNum (qry ''pageSize''))) list,
                        total = length list, page = pageNum (qry ''page''),
                        pageSize = sizeNum (qry ''pageSize'')\<rparr>)
       \<and> (\<forall>list. length memory < 2 ^ 32 \<and> filtered h qry memory = Inr list \<longrightarrow>
            (\<exists>r. get_properties h qry memory = Ok 200 r \<and> total r = length list
               \<and> (page r = PosInf \<longrightarrow> items r = [])
               \<and> (\<forall>n s. page r = Fin (of_int n) \<and> pageSize r = Fin (of_int s)
                     \<longrightarrow> items r = take (nat s) (drop (nat ((n - 1) * s)) list))))"
proof -
  let ?cmp = "compare_fn h (sortBy_of qry) (order_of qry)"
  have cmp: "?cmp a b = Inr (if sortBy_of qry \<in> set inherited then NaN else Fin 0)" for a b
    using assms by (rule compare_fn_unknown)
  have "\<exists>v. ?cmp x y = Inr v \<and> \<not> js_pos v" for x y
    by (simp add: cmp)
  then have srt: "sort_by ?cmp list = Inr list" for list
    by (rule sort_by_never_pos)
  let ?pg = "pageNum (qry ''page'')" and ?sz = "sizeNum (qry ''pageSize'')"
  have get: "get_properties h qry memory =
           (case filtered h qry memory of
              Inl e \<Rightarrow> Fail 500
            | Inr list \<Rightarrow>
                Ok 200 \<lparr>items = slice (start_of ?pg ?sz) (js_add (start_of ?pg ?sz) ?sz) list,
                        total = length list, page = ?pg, pageSize = ?sz\<rparr>)"
    by (simp add: get_properties_def get_properties_with_def Let_def srt split: sum.splits)
  have window: "\<exists>r. get_properties h qry memory = Ok 200 r \<and> total r = length list
               \<and> (page r = PosInf \<longrightarrow> items r = [])
               \<and> (\<forall>n s. page r = Fin (of_int n) \<and> pageSize r = Fin (of_int s)
                     \<longrightarrow> items r = take (nat s) (drop (nat ((n - 1) * s)) list))"
    if "length memory < 2 ^ 32 \<and> filtered h qry memory = Inr list" for list
  proof -
    from that have len: "length memory < 2 ^ 32" and list: "filtered h qry memory = Inr list"
      by simp_all
    define r where "r = \<lparr>items = slice (start_of ?pg ?sz) (js_add (start_of ?pg ?sz) ?sz) list,
                        total = length list, page = ?pg, pageSize = ?sz\<rparr>"
    have ok: "get_properties h qry memory = Ok 200 r"
      by (simp add: get list r_def)
    have "list = filter (selects h qry) memory"
      using list by (rule filtered_Inr)
    then have "length list \<le> length memory" by simp
    with len have llen: "length list < 2 ^ 32" by simp
    from sizeNum_cases [of "qry ''pageSize''"]
    obtain s' where s': "1 \<le> s'" "s' \<le> 100" "?sz = Fin (of_int s')" by blast
    have inf: "items r = []" if "page r = PosInf"
      using that s' page_window_infinite [of s' list] llen by (simp add: r_def)
    have fin: "items r = take (nat s) (drop (nat ((n - 1) * s)) list)"
      if "page r = Fin (of_int n) \<and> pageSize r = Fin (of_int s)" for n s
    proof -
      from that have pg: "?pg = Fin (of_int n)" and sz: "?sz = Fin (of_int s)"
        by (simp_all add: r_def)
      from pageNum_cases [of "qry ''page''"] pg have n: "1 \<le> n" by auto
      from s' sz have s: "1 \<le> s" "s \<le> 100" by auto
      from page_window_finite [OF n s llen] show ?thesis by (simp add: r_def pg sz)
    qed
    have "total r = length list" by (simp add: r_def)
    with ok inf fin show ?thesis by blast
  qed
  from cmp srt get window show ?thesis by blast
qed

theorem unknown_sort_key_keeps_order_witness:
  "sortBy_of sort_unknown_asc = ''surface''
   \<and> compare_fn example_host ''surface'' ''asc'' rec_lyon rec_paris = Inr (Fin 0)
   \<and> length example_memory < 2 ^ 32
   \<and> filtered example_host sort_unknown_asc example_memory = Inr [rec_lyon, rec_paris]
   \<and> get_properties example_host sort_unknown_asc example_memory
       = Ok 200 \<lparr>items = [rec_lyon, rec_paris], total = 2, page = Fin 1, pageSize = Fin 20\<rparr>"
proof -
  have k: "sortBy_of sort_unknown_asc = ''surface''"
    by (simp add: sortBy_of_def sort_unknown_asc_def)
  then have h: "sortBy_of sort_unknown_asc
      \<notin> {''_id'', ''price'', ''location'', ''rentalYield'', ''createdAt''}"
    by simp
  have f: "filtered example_host sort_unknown_asc example_memory = Inr [rec_lyon, rec_paris]"
    by (simp add: eval_defs)
  have o: "order_of sort_unknown_asc = ''asc''"
    by (simp add: order_of_def sort_unknown_asc_def)
  have i: "''surface'' \<notin> set inherited"
    by (simp add: inherited_def)
  from unknown_sort_key_keeps_order [OF h, of example_host example_memory] k f o i
  show ?thesis
    by (simp add: eval_defs)
qed

text \<open>
  C2, at the failing input: two records posted a minute apart, then
  \<open>sortBy=createdAt&order=asc\<close>. The claim asks for ascending \<open>createdAt\<close>; the
  members are ISO strings, their difference is \<open>NaN\<close>, and the items come back in the
  order of the store, newest first.
\<close>

theorem sort_createdAt_asc_newest_first:
  "get_properties example_host sort_createdAt_asc example_memory
     = Ok 200 \<lparr>items = [rec_lyon, rec_paris], total = 2, page = Fin 1, pageSize = Fin 20\<rparr>
   \<and> createdAt rec_lyon = ''2023-11-14T22:14:20.000Z''
   \<and> createdAt rec_paris = ''2023-11-14T22:13:20.000Z''
   \<and> compare_fn example_host ''createdAt'' ''asc'' rec_lyon rec_paris = Inr NaN"
  by (simp add: eval_defs)

text \<open>
  What the sort achieves. When the comparator answers on every pair of a set and its
  sign is that of a total preorder, the model of \<open>sort\<close> returns the records in that
  order (any stable sort returns the same list).
\<close>

lemma js_pos_sub:
  "x \<noteq> NaN \<Longrightarrow> y \<noteq> NaN \<Longrightarrow> binary64 x \<Longrightarrow> binary64 y \<Longrightarrow> js_pos (js_sub x y) = js_lt y x"
  by (cases x; cases y) (auto simp: binary64_def round64_sign)

lemma js_pos_neg_sub:
  "x \<noteq> NaN \<Longrightarrow> y \<noteq> NaN \<Longrightarrow> binary64 x \<Longrightarrow> binary64 y
   \<Longrightarrow> js_pos (js_neg (js_sub x y)) = js_lt x y"
proof (cases x; cases y)
  fix a b assume xy: "x = Fin a" "y = Fin b" and bin: "binary64 x" "binary64 y"
  have "js_neg (round64 (a - b)) = round64 (b - a)"
    using round64_minus [of "a - b"] by simp
  with xy bin show ?thesis by (simp add: binary64_def round64_sign)
qed auto

lemma js_lt_trans: "js_lt a b \<Longrightarrow> js_lt b c \<Longrightarrow> js_lt a c"
  by (cases a; cases b; cases c) auto

lemma js_le_trans: "js_le a b \<Longrightarrow> js_le b c \<Longrightarrow> js_le a c"
  by (cases a; cases b; cases c) (auto simp: js_le_def)

lemma js_le_total: "a \<noteq> NaN \<Longrightarrow> b \<noteq> NaN \<Longrightarrow> js_le a b \<or> js_le b a"
  by (cases a; cases b) (auto simp: js_le_def)

lemma js_ge_trans: "js_ge a b \<Longrightarrow> js_ge b c \<Longrightarrow> js_ge a c"
  by (cases a; cases b; cases c) (auto simp: js_ge_def)

lemma js_ge_total: "a \<noteq> NaN \<Longrightarrow> b \<noteq> NaN \<Longrightarrow> js_ge a b \<or> js_ge b a"
  by (cases a; cases b) (auto simp: js_ge_def)

lemma insert_by_sorted:
  assumes cmp: "\<And>a b. a \<in> S \<Longrightarrow> b \<in> S \<Longrightarrow> \<exists>v. cmp a b = Inr v \<and> (js_pos v \<longleftrightarrow> \<not> le a b)"
    and trans: "\<And>a b c. a \<in> S \<Longrightarrow> b \<in> S \<Longrightarrow> c \<in> S \<Longrightarrow> le a b \<Longrightarrow> le b c \<Longrightarrow> le a c"
    and total: "\<And>a b. a \<in> S \<Longrightarrow> b \<in> S \<Longrightarrow> le a b \<or> le b a"
    and x: "x \<in> S" and ys: "set ys \<subseteq> S" and sorted: "sorted_wrt le ys"
  shows "\<exists>zs. insert_by cmp x ys = Inr zs \<and> sorted_wrt le zs"
  using ys sorted
proof (induction ys)
  case Nil
  show ?case by simp
next
  case (Cons y ys)
  from Cons.prems have y: "y \<in> S" and ys: "set ys \<subseteq> S"
    and tail: "sorted_wrt le ys" and head: "\<forall>z\<in>set ys. le y z"
    by auto
  from cmp [OF x y] obtain v where v: "cmp x y = Inr v" "js_pos v \<longleftrightarrow> \<not> le x y"
    by blast
  show ?case
  proof (cases "le x y")
    case True
    have "le x z" if "z \<in> set ys" for z
      using trans [OF x y _ True] head that ys by blast
    with True v Cons.prems show ?thesis by auto
  next
    case False
    with total [OF x y] have yx: "le y x" by blast
    from Cons.IH [OF ys tail] obtain zs where zs: "insert_by cmp x ys = Inr zs" "sorted_wrt le zs"
      by blast
    from insert_by_mset [OF zs(1)] have "set zs = insert x (set ys)"
      by (metis set_mset_add_mset_insert set_mset_mset)
    with head yx have "\<forall>z\<in>set zs. le y z" by auto
    with False v zs show ?thesis by auto
  qed
qed

lemma sort_by_sorted:
  assumes cmp: "\<And>a b. a \<in> S \<Longrightarrow> b \<in> S \<Longrightarrow> \<exists>v. cmp a b = Inr v \<and> (js_pos v \<longleftrightarrow> \<not> le a b)"
    and trans: "\<And>a b c. a \<in> S \<Longrightarrow> b \<in> S \<Longrightarrow> c \<in> S \<Longrightarrow> le a b \<Longrightarrow> le b c \<Longrightarrow> le a c"
    and total: "\<And>a b. a \<in> S \<Longrightarrow> b \<in> S \<Longrightarrow> le a b \<or> le b a"
    and xs: "set xs \<subseteq> S"
  shows "\<exists>ys. sort_by cmp xs = Inr ys \<and> sorted_wrt le ys \<and> mset ys = mset xs"
  using xs
proof (induction xs)
  case Nil
  show ?case by simp
next
  case (Cons x xs)
  then obtain ys where ys: "sort_by cmp xs = Inr ys" "sorted_wrt le ys" "mset ys = mset xs"
    by auto
  from ys(3) Cons.prems have sub: "set ys \<subseteq> S"
    by (metis set_mset_mset set_subset_Cons subset_trans)
  from Cons.prems have x: "x \<in> S" by simp
  have "\<exists>zs. insert_by cmp x ys = Inr zs \<and> sorted_wrt le zs"
    using cmp trans total x sub ys(2) by (rule insert_by_sorted [where S = S])
  then obtain zs where zs: "insert_by cmp x ys = Inr zs" "sorted_wrt le zs"
    by blast
  from insert_by_mset [OF zs(1)] ys(3) have "mset zs = mset (x # xs)" by simp
  with ys(1) zs show ?case by simp
qed

lemma get_properties_sorted:
  assumes flt: "filtered h qry memory = Inr list"
    and srt: "sort_by (compare_fn h (sortBy_of qry) (order_of qry)) list = Inr ys"
    and le: "sorted_wrt le ys"
  shows "\<exists>r. get_properties h qry memory = Ok 200 r \<and> sorted_wrt le (items r)
             \<and> set (items r) \<subseteq> set memory"
proof -
  from filtered_Inr [OF flt] have "set list \<subseteq> set memory" by auto
  moreover from sort_by_mset [OF srt] have "set ys = set list"
    by (metis set_mset_mset)
  ultimately have "set (take n (drop m ys)) \<subseteq> set memory" for n m
    using set_take_subset [of n "drop m ys"] set_drop_subset [of m ys] by blast
  moreover have "sorted_wrt le (take n (drop m ys))" for n m
    using le by (simp add: sorted_wrt_drop sorted_wrt_take)
  ultimately show ?thesis
    using flt srt by (simp add: get_properties_def get_properties_with_def Let_def slice_def)
qed

text \<open>
  Sorting by a key other than \<open>location\<close>, when the operand \<open>ToNumber(x[sortBy] ?? 0)\<close>
  of every record of the store is a binary64 value other than \<open>NaN\<close>: the items are in
  ascending numeric order of the operand for \<open>order=asc\<close> and in descending order
  otherwise. Records made by POST from numeric \<open>price\<close> and \<open>rentalYield\<close> meet the
  condition for these two keys; no record does for \<open>createdAt\<close>.
\<close>

theorem sorted_numeric_key:
  assumes key: "sortBy_of qry \<noteq> ''location''"
    and num: "\<forall>x\<in>set memory. sort_operand (sortBy_of qry) x \<noteq> NaN
                               \<and> binary64 (sort_operand (sortBy_of qry) x)"
    and flt: "filtered h qry memory = Inr list"
  shows "\<exists>r. get_properties h qry memory = Ok 200 r \<and> set (items r) \<subseteq> set memory
           \<and> (if order_of qry = ''asc''
               then sorted_wrt (\<lambda>a b. js_le (sort_operand (sortBy_of qry) a)
                                          (sort_operand (sortBy_of qry) b)) (items r)
               else sorted_wrt (\<lambda>a b. js_ge (sort_operand (sortBy_of qry) a)
                                          (sort_operand (sortBy_of qry) b)) (items r))"
proof -
  let ?k = "sortBy_of qry" and ?cmp = "compare_fn h (sortBy_of qry) (order_of qry)"
  let ?S = "set memory"
  from filtered_Inr [OF flt] have sub: "set list \<subseteq> ?S" by auto
  show ?thesis
  proof (cases "order_of qry = ''asc''")
    case True
    let ?le = "\<lambda>a b. js_le (sort_operand ?k a) (sort_operand ?k b)"
    have cmp: "\<exists>v. ?cmp a b = Inr v \<and> (js_pos v \<longleftrightarrow> \<not> ?le a b)" if "a \<in> ?S" "b \<in> ?S" for a b
      using that num key True by (simp add: compare_fn_def Let_def js_pos_sub js_le_def)
    have trans: "?le a c" if "?le a b" "?le b c" for a b c
      using that by (rule js_le_trans)
    have total: "?le a b \<or> ?le b a" if "a \<in> ?S" "b \<in> ?S" for a b
      using that num by (simp add: js_le_total)
    have "\<exists>ys. sort_by ?cmp list = Inr ys \<and> sorted_wrt ?le ys \<and> mset ys = mset list"
      using cmp trans total sub by (rule sort_by_sorted [where S = ?S])
    then obtain ys where "sort_by ?cmp list = Inr ys" "sorted_wrt ?le ys" by blast
    with flt have "\<exists>r. get_properties h qry memory = Ok 200 r \<and> sorted_wrt ?le (items r)
             \<and> set (items r) \<subseteq> set memory"
      by (rule get_properties_sorted)
    with True show ?thesis by auto
  next
    case False
    let ?le = "\<lambda>a b. js_ge (sort_operand ?k a) (sort_operand ?k b)"
    have cmp: "\<exists>v. ?cmp a b = Inr v \<and> (js_pos v \<longleftrightarrow> \<not> ?le a b)" if "a \<in> ?S" "b \<in> ?S" for a b
      using that num key False by (simp add: compare_fn_def Let_def js_pos_neg_sub js_ge_def)
    have trans: "?le a c" if "?le a b" "?le b c" for a b c
      using that by (rule js_ge_trans)
    have total: "?le a b \<or> ?le b a" if "a \<in> ?S" "b \<in> ?S" for a b
      using that num by (simp add: js_ge_total)
    have "\<exists>ys. sort_by ?cmp list = Inr ys \<and> sorted_wrt ?le ys \<and> mset ys = mset list"
      using cmp trans total sub by (rule sort_by_sorted [where S = ?S])
    then obtain ys where "sort_by ?cmp list = Inr ys" "sorted_wrt ?le ys" by blast
    with flt have "\<exists>r. get_properties h qry memory = Ok 200 r \<and> sorted_wrt ?le (items r)
             \<and> set (items r) \<subseteq> set memory"
      by (rule get_properties_sorted)
    with False show ?thesis by auto
  qed
qed

text \<open>
  Sorting by \<open>location\<close>, when every location is a string and the collation is
  consistent on them: the items are in collation order, reversed unless \<open>order=asc\<close>.
\<close>

theorem sorted_location:
  assumes key: "sortBy_of qry = ''location''"
    and strs: "\<forall>x\<in>set memory. \<exists>s. location x = JStr s"
    and cons: "consistent_on (localeCompare h) ((\<lambda>x. to_string h (location x)) ` set memory)"
    and flt: "filtered h qry memory = Inr list"
  shows "\<exists>r. get_properties h qry memory = Ok 200 r \<and> set (items r) \<subseteq> set memory
           \<and> (if order_of qry = ''asc''
               then sorted_wrt (\<lambda>a b. localeCompare h (to_string h (location a))
                                          (to_string h (location b)) \<le> 0) (items r)
               else sorted_wrt (\<lambda>a b. 0 \<le> localeCompare h (to_string h (location a))
                                              (to_string h (location b))) (items r))"
proof -
  let ?cmp = "compare_fn h (sortBy_of qry) (order_of qry)"
  let ?S = "set memory"
  let ?lc = "\<lambda>a b. localeCompare h (to_string h (location a)) (to_string h (location b))"
  from filtered_Inr [OF flt] have sub: "set list \<subseteq> ?S" by auto
  have swap: "(?lc b a \<le> 0) = (0 \<le> ?lc a b)" if "a \<in> ?S" "b \<in> ?S" for a b
    using cons that unfolding consistent_on_def by blast
  have tr: "?lc a c \<le> 0" if "a \<in> ?S" "b \<in> ?S" "c \<in> ?S" "?lc a b \<le> 0" "?lc b c \<le> 0" for a b c
    using cons that unfolding consistent_on_def by blast
  show ?thesis
  proof (cases "order_of qry = ''asc''")
    case True
    let ?le = "\<lambda>a b. ?lc a b \<le> 0"
    have cmp: "\<exists>v. ?cmp a b = Inr v \<and> (js_pos v \<longleftrightarrow> \<not> ?le a b)" if "a \<in> ?S" "b \<in> ?S" for a b
    proof -
      from strs that obtain s where "location a = JStr s" by blast
      then show ?thesis using key True by (auto simp: compare_fn_def Let_def)
    qed
    have total: "?le a b \<or> ?le b a" if "a \<in> ?S" "b \<in> ?S" for a b
      using swap [OF that] by linarith
    have "\<exists>ys. sort_by ?cmp list = Inr ys \<and> sorted_wrt ?le ys \<and> mset ys = mset list"
      using cmp tr total sub by (rule sort_by_sorted [where S = ?S])
    then obtain ys where "sort_by ?cmp list = Inr ys" "sorted_wrt ?le ys" by blast
    with flt have "\<exists>r. get_properties h qry memory = Ok 200 r \<and> sorted_wrt ?le (items r)
             \<and> set (items r) \<subseteq> set memory"
      by (rule get_properties_sorted)
    with True show ?thesis by auto
  next
    case False
    let ?le = "\<lambda>a b. 0 \<le> ?lc a b"
    have cmp: "\<exists>v. ?cmp a b = Inr v \<and> (js_pos v \<longleftrightarrow> \<not> ?le a b)" if "a \<in> ?S" "b \<in> ?S" for a b
    proof -
      from strs that obtain s where "location a = JStr s" by blast
      then show ?thesis using key False by (auto simp: compare_fn_def Let_def)
    qed
    have total: "?le a b \<or> ?le b a" if "a \<in> ?S" "b \<in> ?S" for a b
      using swap [OF that] by linarith
    have trans: "?le a c" if "a \<in> ?S" "b \<in> ?S" "c \<in> ?S" "?le a b" "?le b c" for a b c
    proof -
      from that swap have "?lc c b \<le> 0" "?lc b a \<le> 0" by blast+
      with that have "?lc c a \<le> 0" using tr by blast
      with that swap show ?thesis by blast
    qed
    have "\<exists>ys. sort_by ?cmp list = Inr ys \<and> sorted_wrt ?le ys \<and> mset ys = mset list"
      using cmp trans total sub by (rule sort_by_sorted [where S = ?S])
    then obtain ys where "sort_by ?cmp list = Inr ys" "sorted_wrt ?le ys" by blast
    with flt have "\<exists>r. get_properties h qry memory = Ok 200 r \<and> sorted_wrt ?le (items r)
             \<and> set (items r) \<subseteq> set memory"
      by (rule get_properties_sorted)
    with False show ?thesis by auto
  qed
qed

lemma sort_examples:
  "get_properties example_host sort_price_asc scenario_memory
     = Ok 200 \<lparr>items = [rec_lyon, rec_paris, rec_paris2], total = 3, page = Fin 1, pageSize = Fin 20\<rparr>
   \<and> get_properties example_host sort_location_desc scenario_memory
     = Ok 200 \<lparr>items = [rec_paris2, rec_paris, rec_lyon], total = 3, page = Fin 1, pageSize = Fin 20\<rparr>"
  by (simp add: eval_defs)

subsection \<open>GET /api/properties: pagination\<close>

text \<open>
  C3. Whatever the engine's sort, as long as it returns a rearrangement of its input, and
  for a store of fewer than \<open>2^32\<close> records: when the handler answers, the status is 200,
  the page size sent is the effective one, an integer of \<open>[1, 100]\<close> that bounds the number
  of items; \<open>total\<close> is the number of records of \<open>memory\<close> that the filters select; the
  items are the window of the sorted selected records that starts at index
  \<open>(page - 1) * pageSize\<close>, empty when the page is \<open>Infinity\<close>; and the same query with
  any other \<open>page\<close> answers with the same \<open>total\<close>.
\<close>

theorem get_pagination:
  assumes sorts: "rearranges array_sort"
    and len: "length memory < 2 ^ 32"
    and ok: "get_properties_with array_sort h qry memory = Ok st r"
  shows "st = 200
    \<and> page r = pageNum (qry ''page'') \<and> pageSize r = sizeNum (qry ''pageSize'')
    \<and> total r = length (filter (selects h qry) memory)
    \<and> (\<exists>s ys. 1 \<le> s \<and> s \<le> 100 \<and> pageSize r = Fin (of_int s) \<and> length (items r) \<le> nat s
          \<and> array_sort (compare_fn h (sortBy_of qry) (order_of qry)) (filter (selects h qry) memory)
              = Inr ys
          \<and> mset ys = mset (filter (selects h qry) memory)
          \<and> (page r = PosInf \<longrightarrow> items r = [])
          \<and> (\<forall>n. page r = Fin (of_int n) \<longrightarrow> items r = take (nat s) (drop (nat ((n - 1) * s)) ys)))
    \<and> (page r = PosInf \<or> (\<exists>n. 1 \<le> n \<and> page r = Fin (of_int n)))
    \<and> (\<forall>p. \<exists>r'. get_properties_with array_sort h (qry(''page'' := p)) memory = Ok 200 r'
                \<and> total r' = total r)"
proof -
  let ?cmp = "compare_fn h (sortBy_of qry) (order_of qry)"
  let ?pg = "pageNum (qry ''page'')" and ?sz = "sizeNum (qry ''pageSize'')"
  from ok obtain list where list: "filtered h qry memory = Inr list"
    by (auto simp: get_properties_with_def Let_def split: sum.splits)
  from ok list obtain ys where ys: "array_sort ?cmp list = Inr ys"
    by (auto simp: get_properties_with_def Let_def split: sum.splits)
  have r: "r = \<lparr>items = slice (start_of ?pg ?sz) (js_add (start_of ?pg ?sz) ?sz) ys,
                total = length ys, page = ?pg, pageSize = ?sz\<rparr>" and st: "st = 200"
    using ok list ys by (auto simp: get_properties_with_def Let_def)
  have list_eq: "list = filter (selects h qry) memory"
    using list by (rule filtered_Inr)
  from sorts ys have perm: "mset ys = mset list"
    by (simp add: rearranges_def)
  then have "length ys = length list" by (metis size_mset)
  also have "\<dots> \<le> length memory" by (simp add: list_eq)
  finally have ylen: "length ys < 2 ^ 32" using len by simp
  from sizeNum_cases [of "qry ''pageSize''"]
  obtain s where s: "1 \<le> s" "s \<le> 100" "?sz = Fin (of_int s)" by blast
  have inf: "items r = []" if "page r = PosInf"
    using that s page_window_infinite [of s ys] ylen by (simp add: r)
  have fin: "items r = take (nat s) (drop (nat ((n - 1) * s)) ys)" if "page r = Fin (of_int n)" for n
  proof -
    from that have pg: "?pg = Fin (of_int n)" by (simp add: r)
    from pageNum_cases [of "qry ''page''"] pg have "1 \<le> n" by auto
    from page_window_finite [OF this s(1,2) ylen] show ?thesis by (simp add: r pg s(3))
  qed
  have cases: "page r = PosInf \<or> (\<exists>n. 1 \<le> n \<and> page r = Fin (of_int n))"
    using pageNum_cases [of "qry ''page''"] by (simp add: r)
  have bound: "length (items r) \<le> nat s"
    using cases inf fin by auto
  have other: "\<exists>r'. get_properties_with array_sort h (qry(''page'' := p)) memory = Ok 200 r'
      \<and> total r' = total r" for p
    using list ys
    by (simp add: get_properties_with_def Let_def filtered_page_irrelevant sortBy_of_def
        order_of_def r)
  have "total r = length (filter (selects h qry) memory)"
    using \<open>length ys = length list\<close> by (simp add: r list_eq)
  moreover have "array_sort ?cmp (filter (selects h qry) memory) = Inr ys"
    using ys by (simp add: list_eq)
  moreover have "mset ys = mset (filter (selects h qry) memory)"
    using perm by (simp add: list_eq)
  moreover have "page r = ?pg" "pageSize r = ?sz" by (simp_all add: r)
  ultimately show ?thesis
    using st s inf fin cases bound other by (simp only:) blast
qed

lemma rearranges_sort_by: "rearranges sort_by"
  by (auto simp: rearranges_def dest: sort_by_mset)

theorem get_pagination_witness:
  "rearranges (sort_by :: (property \<Rightarrow> property \<Rightarrow> exn + jsnum) \<Rightarrow> property list \<Rightarrow> exn + property list)
   \<and> length scenario_memory < 2 ^ 32
   \<and> get_properties_with sort_by example_host scenario_page2 scenario_memory
     = Ok 200 \<lparr>items = [rec_paris2], total = 2, page = Fin 2, pageSize = Fin 1\<rparr>
   \<and> filter (selects example_host scenario_page2) scenario_memory = [rec_paris2, rec_paris]
   \<and> sort_by (compare_fn example_host ''price'' ''asc'') [rec_paris2, rec_paris]
       = Inr [rec_paris, rec_paris2]
   \<and> get_properties_with sort_by example_host (scenario_page2(''page'' := Some ''1'')) scenario_memory
       = Ok 200 \<lparr>items = [rec_paris], total = 2, page = Fin 1, pageSize = Fin 1\<rparr>"
proof -
  have len: "length scenario_memory < 2 ^ 32"
    by (simp add: scenario_memory_def)
  have h: "get_properties_with sort_by example_host scenario_page2 scenario_memory
     = Ok 200 \<lparr>items = [rec_paris2], total = 2, page = Fin 2, pageSize = Fin 1\<rparr>"
    by (simp add: eval_defs)
  have sel: "filter (selects example_host scenario_page2) scenario_memory = [rec_paris2, rec_paris]"
    by (simp add: eval_defs)
  have srt: "sort_by (compare_fn example_host ''price'' ''asc'') [rec_paris2, rec_paris]
       = Inr [rec_paris, rec_paris2]"
    by (simp add: eval_defs)
  from get_pagination [OF rearranges_sort_by len h]
  obtain r' where "get_properties_with sort_by example_host (scenario_page2(''page'' := Some ''1''))
      scenario_memory = Ok 200 r'" "total r' = 2"
    by auto
  moreover have "get_properties_with sort_by example_host (scenario_page2(''page'' := Some ''1''))
      scenario_memory = Ok 200 \<lparr>items = [rec_paris], total = 2, page = Fin 1, pageSize = Fin 1\<rparr>"
    by (simp add: eval_defs)
  ultimately show ?thesis using rearranges_sort_by len h sel srt by simp
qed

subsection \<open>DELETE /api/properties/:id\<close>

text \<open>
  C8, at the failing input: the store after two POSTs in the same millisecond, then a
  DELETE of their id. The claim asks that no later query shows the id; \<open>splice\<close> removes
  the first of the two records only, and the next GET lists the other.
\<close>

theorem deleted_id_still_listed:
  "delete_property ''1700000000000'' twin_memory = ([rec_paris], Ok 200 ())
   \<and> get_properties example_host no_params [rec_paris]
       = Ok 200 \<lparr>items = [rec_paris], total = 1, page = Fin 1, pageSize = Fin 20\<rparr>
   \<and> p_id rec_paris = ''1700000000000''"
  by (simp add: eval_defs delete_property_def twin_memory_def rec_twin_def)

text \<open>
  When the ids of the store are distinct, the claim of C8 holds: after a DELETE that
  answers 200, and after any later writes none of which is a POST that creates the id
  again, no GET shows a record with the deleted id.
\<close>

lemma set_slice: "set (slice a b ys) \<subseteq> set ys"
proof -
  have "set (take n (drop k ys)) \<subseteq> set ys" for n k
    using set_take_subset [of n "drop k ys"] set_drop_subset [of k ys] by blast
  then show ?thesis
    by (simp add: slice_def Let_def)
qed

lemma get_items_subset:
  assumes "get_properties h qry memory = Ok st r"
  shows "set (items r) \<subseteq> set memory"
proof -
  from assms obtain list where l: "filtered h qry memory = Inr list"
    by (auto simp: get_properties_def get_properties_with_def Let_def split: sum.splits)
  from assms l obtain ys where
    s: "sort_by (compare_fn h (sortBy_of qry) (order_of qry)) list = Inr ys"
    by (auto simp: get_properties_def get_properties_with_def Let_def split: sum.splits)
  from assms l s obtain a b where r: "items r = slice a b ys"
    by (auto simp: get_properties_def get_properties_with_def Let_def)
  from filtered_Inr [OF l] have "set list \<subseteq> set memory" by auto
  moreover from sort_by_set [OF s] have "set ys = set list" .
  moreover have "set (items r) \<subseteq> set ys"
    unfolding r by (rule set_slice)
  ultimately show ?thesis by simp
qed

lemma findIndex_split:
  assumes "findIndex P xs = Some i"
  shows "xs = take i xs @ xs ! i # drop (Suc i) xs \<and> P (xs ! i)"
  using findIndex_SomeD [OF assms] by (simp add: id_take_nth_drop)

lemma delete_property_ids:
  "p_id ` set (fst (delete_property ident memory)) \<subseteq> p_id ` set memory"
proof (cases "findIndex (\<lambda>x. p_id x = ident) memory")
  case None
  then show ?thesis by (simp add: delete_property_def)
next
  case (Some i)
  then have eq: "fst (delete_property ident memory) = take i memory @ drop (Suc i) memory"
    by (simp add: delete_property_def)
  have "set (take i memory @ drop (Suc i) memory) \<subseteq> set memory"
    using set_take_subset [of i memory] set_drop_subset [of "Suc i" memory] by simp
  then show ?thesis
    unfolding eq by (rule image_mono)
qed

lemma put_property_ids: "map p_id (fst (put_property ident b memory)) = map p_id memory"
proof (cases "findIndex (\<lambda>x. p_id x = ident) memory")
  case None
  then show ?thesis by (simp add: put_property_def)
next
  case (Some i)
  from findIndex_SomeD [OF Some] have i: "i < length memory" by simp
  define r where "r = (memory ! i)\<lparr>price := member b ''price'', location := member b ''location'',
      rentalYield := member b ''rentalYield''\<rparr>"
  have eq: "fst (put_property ident b memory) = memory[i := r]"
    using Some by (simp add: put_property_def Let_def r_def)
  have "p_id r = p_id (memory ! i)"
    by (simp add: r_def)
  then have "(map p_id memory)[i := p_id r] = map p_id memory"
    using i by (simp add: list_update_same_conv)
  then show ?thesis
    unfolding eq by (simp only: map_update)
qed

lemma step_ids:
  assumes "ident \<notin> p_id ` set memory" and "\<not> creates ident req"
  shows "ident \<notin> p_id ` set (step h memory req)"
proof (cases req)
  case (Post now now' b)
  with assms show ?thesis by (auto simp: post_properties_def Let_def)
next
  case (Put i b)
  have "p_id ` set (fst (put_property i b memory)) = p_id ` set memory"
    by (metis put_property_ids set_map)
  with Put assms show ?thesis by simp
next
  case (Delete i)
  with assms delete_property_ids [of i memory] show ?thesis by auto
qed

lemma run_ids:
  assumes "ident \<notin> p_id ` set memory" and "\<forall>req\<in>set reqs. \<not> creates ident req"
  shows "ident \<notin> p_id ` set (run h memory reqs)"
  using assms unfolding run_def
proof (induction reqs arbitrary: memory)
  case Nil
  then show ?case by simp
next
  case (Cons req reqs)
  from Cons.prems have "ident \<notin> p_id ` set (step h memory req)"
    by (simp add: step_ids)
  with Cons show ?case by simp
qed

theorem deleted_id_gone:
  assumes dist: "distinct (map p_id memory)"
    and del: "delete_property ident memory = (memory', Ok 200 u)"
    and later: "\<forall>req\<in>set reqs. \<not> creates ident req"
    and get: "get_properties h qry (run h memory' reqs) = Ok st r"
  shows "ident \<notin> p_id ` set (items r)"
proof -
  from del obtain i where i: "findIndex (\<lambda>x. p_id x = ident) memory = Some i"
    and m': "memory' = take i memory @ drop (Suc i) memory"
    by (auto simp: delete_property_def split: option.splits)
  from findIndex_split [OF i] have split: "memory = take i memory @ memory ! i # drop (Suc i) memory"
    and at: "p_id (memory ! i) = ident" by simp_all
  from dist have "distinct (map p_id (take i memory @ memory ! i # drop (Suc i) memory))"
    using split by simp
  then have "ident \<notin> p_id ` set memory'"
    unfolding m' using at by auto
  then have "ident \<notin> p_id ` set (run h memory' reqs)"
    using later by (rule run_ids)
  with get_items_subset [OF get] show ?thesis by blast
qed

end
